theory Spec2Isabelle
  imports Main "HOL-Library.Word" "HOL-Library.Multiset"
begin

section \<open>Data model of finddups.c\<close>

text \<open>
  The program keeps one record per regular file in a tree keyed by file size
  (\<^verbatim>\<open>struct Node\<close>), each node holding the linked list of files of that size
  (\<^verbatim>\<open>struct fe\<close>). A C linked list becomes a HOL list whose head is the pointer the
  node stores; a null pointer becomes \<open>Leaf\<close> or \<open>[]\<close>. \<^verbatim>\<open>long\<close> and
  \<^verbatim>\<open>off_t\<close> values are \<open>int\<close> (an LP64 target, file sizes far below
  \<open>2^63\<close>), \<^verbatim>\<open>dev_t\<close> and \<^verbatim>\<open>ino_t\<close> are \<open>nat\<close> (only compared for equality).
  Memory allocation is taken to succeed.
\<close>

record stat =
  st_size :: int
  st_dev :: nat
  st_ino :: nat

record fe =
  name :: string
  dev :: nat
  inode :: nat

datatype Node = Leaf
  | Node (nd_size: int) (nd_c: int) (nd_files: "fe list") (nd_left: Node) (nd_right: Node) (nd_color: int)

section \<open>The size index: a left-leaning red-black tree\<close>

text \<open>
  \<^verbatim>\<open>colorFlip\<close> asserts the colours it expects and the rotations dereference a child,
  so each returns \<open>None\<close> where the C program would abort; \<^verbatim>\<open>insertR\<close> propagates it.
\<close>

fun isRed :: "Node \<Rightarrow> bool" where
  "isRed Leaf = False"
| "isRed (Node s c fs l r col) = (col \<noteq> 0)"

fun colorFlip :: "Node \<Rightarrow> Node option" where
  "colorFlip (Node s c fs (Node ls lc lfs ll lr lcol) (Node rs rc rfs rl rr rcol) col) =
     (if col = 0 \<and> lcol = 1 \<and> rcol = 1
      then Some (Node s c fs (Node ls lc lfs ll lr 0) (Node rs rc rfs rl rr 0) 1)
      else None)"
| "colorFlip _ = None"

fun rotateLeft :: "Node \<Rightarrow> Node option" where
  "rotateLeft (Node s c fs l (Node xs xc xfs xl xr xcol) col) =
     Some (Node xs xc xfs (Node s c fs l xl 1) xr col)"
| "rotateLeft _ = None"

fun rotateRight :: "Node \<Rightarrow> Node option" where
  "rotateRight (Node s c fs (Node xs xc xfs xl xr xcol) r col) =
     Some (Node xs xc xfs xl (Node s c fs xr r 1) col)"
| "rotateRight _ = None"

definition newFileNode :: "string \<Rightarrow> stat \<Rightarrow> fe" where
  "newFileNode nm st = \<lparr>name = nm, dev = st_dev st, inode = st_ino st\<rparr>"

text \<open>
  \<^verbatim>\<open>insertR\<close> recurses into a child of the node after the colour flip, which only
  recolours, so the tree size is the termination measure.
\<close>

lemma colorFlip_size: "colorFlip n = Some n' \<Longrightarrow> size n' = size n"
  by (induction n rule: colorFlip.induct) (auto split: if_splits)

function insertR :: "Node \<Rightarrow> string \<Rightarrow> stat \<Rightarrow> Node option" where
  "insertR Leaf nm st = Some (Node (st_size st) 1 [newFileNode nm st] Leaf Leaf 1)"
| "insertR (Node s c fs l r col) nm st =
    (if st_size st = s then
       (if list_ex (\<lambda>fp. dev fp = st_dev st \<and> inode fp = st_ino st) fs
        then Some (Node s c fs l r col)
        else Some (Node s c (newFileNode nm st # fs) l r col))
     else
       (case (if isRed l \<and> isRed r then colorFlip (Node s c fs l r col)
              else Some (Node s c fs l r col)) of
          None \<Rightarrow> None
        | Some Leaf \<Rightarrow> None
        | Some (Node s1 c1 fs1 l1 r1 col1) \<Rightarrow>
           (case (if st_size st < s1
                  then (case insertR l1 nm st of None \<Rightarrow> None
                        | Some l' \<Rightarrow> Some (Node s1 c1 fs1 l' r1 col1))
                  else (case insertR r1 nm st of None \<Rightarrow> None
                        | Some r' \<Rightarrow> Some (Node s1 c1 fs1 l1 r' col1))) of
              None \<Rightarrow> None
            | Some n2 \<Rightarrow>
               (case (if isRed (nd_right n2) \<and> \<not> isRed (nd_left n2)
                      then rotateLeft n2 else Some n2) of
                  None \<Rightarrow> None
                | Some n3 \<Rightarrow>
                    if isRed (nd_left n3) \<and> isRed (nd_left (nd_left n3))
                    then rotateRight n3 else Some n3))))"
  by pat_completeness auto
termination
  apply (relation "measure (\<lambda>(t, nm, st). size t)")
    apply simp
   apply (auto split: if_splits dest!: colorFlip_size)
  done

subsection \<open>Colour invariant: the assertions of \<^verbatim>\<open>colorFlip\<close> never fail\<close>

text \<open>
  \<open>cinv\<close>: colours are 0 or 1, a red node has no red child, and a red right child comes
  with a red left child. \<open>almost\<close> is what inserting below a red node may return: a red
  root whose left child may be red as well.
\<close>

fun cinv :: "Node \<Rightarrow> bool" where
  "cinv Leaf = True"
| "cinv (Node s c fs l r col) =
     ((col = 0 \<or> col = 1) \<and> (col \<noteq> 0 \<longrightarrow> \<not> isRed l \<and> \<not> isRed r) \<and>
      (isRed r \<longrightarrow> isRed l) \<and> cinv l \<and> cinv r)"

fun almost :: "Node \<Rightarrow> bool" where
  "almost Leaf = False"
| "almost (Node s c fs l r col) = (col = 1 \<and> cinv l \<and> cinv r \<and> \<not> isRed r)"

fun four_node :: "Node \<Rightarrow> bool" where
  "four_node Leaf = False"
| "four_node (Node s c fs l r col) = (isRed l \<and> isRed r)"

lemma cinv_red_almost: "cinv t \<Longrightarrow> isRed t \<Longrightarrow> almost t"
  by (cases t) auto

lemma almost_cinv: "almost t \<Longrightarrow> \<not> isRed (nd_left t) \<Longrightarrow> cinv t"
  by (cases t) auto

definition flipDown :: "Node \<Rightarrow> Node option" where
  "flipDown n = (if isRed (nd_left n) \<and> isRed (nd_right n) then colorFlip n else Some n)"

definition fixUp :: "Node \<Rightarrow> Node option" where
  "fixUp n2 =
     (case (if isRed (nd_right n2) \<and> \<not> isRed (nd_left n2) then rotateLeft n2 else Some n2) of
        None \<Rightarrow> None
      | Some n3 \<Rightarrow>
          if isRed (nd_left n3) \<and> isRed (nd_left (nd_left n3)) then rotateRight n3 else Some n3)"

lemma insertR_Node:
  "insertR (Node s c fs l r col) nm st =
    (if st_size st = s then
       (if list_ex (\<lambda>fp. dev fp = st_dev st \<and> inode fp = st_ino st) fs
        then Some (Node s c fs l r col)
        else Some (Node s c (newFileNode nm st # fs) l r col))
     else
       (case flipDown (Node s c fs l r col) of
          None \<Rightarrow> None
        | Some Leaf \<Rightarrow> None
        | Some (Node s1 c1 fs1 l1 r1 col1) \<Rightarrow>
           (if st_size st < s1
            then (case insertR l1 nm st of None \<Rightarrow> None
                  | Some l' \<Rightarrow> fixUp (Node s1 c1 fs1 l' r1 col1))
            else (case insertR r1 nm st of None \<Rightarrow> None
                  | Some r' \<Rightarrow> fixUp (Node s1 c1 fs1 l1 r' col1)))))"
  by (simp add: flipDown_def fixUp_def split: option.splits Node.splits)

lemma flipDown_cases:
  assumes "cinv (Node s c fs l r col)"
  shows "\<exists>l1 r1 col1. flipDown (Node s c fs l r col) = Some (Node s c fs l1 r1 col1) \<and>
           cinv l1 \<and> cinv r1 \<and> \<not> isRed r1 \<and> (col1 = 0 \<or> col1 = 1) \<and>
           (col1 = 1 \<longrightarrow> \<not> isRed l1) \<and>
           (col \<noteq> 0 \<longrightarrow> col1 = 1) \<and>
           (col = 0 \<and> \<not> (isRed l \<and> isRed r) \<longrightarrow> col1 = 0) \<and>
           (col = 0 \<and> isRed l \<and> isRed r \<longrightarrow>
              col1 = 1 \<and> l1 \<noteq> Leaf \<and> r1 \<noteq> Leaf \<and> \<not> four_node l1 \<and> \<not> four_node r1) \<and>
           (isRed l1 \<longrightarrow> almost l1)"
  using assms
  by (cases l; cases r) (auto simp: flipDown_def)

lemma fixUp_black_left:
  assumes "cinv r" "\<not> isRed r" "cinv l' \<or> almost l'"
  shows "\<exists>t'. fixUp (Node s c fs l' r 0) = Some t' \<and> cinv t' \<and> \<not> isRed t'"
proof (cases l')
  case Leaf
  with assms show ?thesis by (auto simp: fixUp_def)
next
  case (Node ls lc lfs ll lr lcol)
  with assms show ?thesis
    by (cases ll) (auto simp: fixUp_def)
qed

lemma fixUp_black_right:
  assumes "cinv l" "cinv r'"
  shows "\<exists>t'. fixUp (Node s c fs l r' 0) = Some t' \<and> cinv t' \<and> \<not> isRed t'"
proof (cases r')
  case Leaf
  with assms show ?thesis by (cases l; cases "nd_left l") (auto simp: fixUp_def)
next
  case (Node rs rc rfs rl rr rcol)
  with assms show ?thesis
    by (cases l; cases "nd_left l") (auto simp: fixUp_def)
qed

lemma fixUp_red_left:
  assumes "cinv r" "\<not> isRed r" "cinv l'"
  shows "\<exists>t'. fixUp (Node s c fs l' r 1) = Some t' \<and> almost t' \<and> (\<not> isRed l' \<longrightarrow> cinv t')"
  using assms by (cases l'; cases "nd_left l'") (auto simp: fixUp_def)

lemma fixUp_red_right:
  assumes "cinv l" "\<not> isRed l" "cinv r'"
  shows "\<exists>t'. fixUp (Node s c fs l r' 1) = Some t' \<and> almost t' \<and> (\<not> isRed r' \<longrightarrow> cinv t')"
  using assms by (cases r'; cases l; cases "nd_left l") (auto simp: fixUp_def)

declare insertR.simps(2) [simp del]

lemma insertR_color:
  "cinv t \<Longrightarrow> \<exists>t'. insertR t nm st = Some t' \<and>
     (if isRed t then almost t'
      else cinv t' \<and> (t \<noteq> Leaf \<and> \<not> four_node t \<longrightarrow> \<not> isRed t'))"
proof (induction t nm st rule: insertR.induct)
  case (1 nm st)
  then show ?case by simp
next
  case (2 s c fs l r col nm st)
  show ?case
  proof (cases "st_size st = s")
    case True
    with "2.prems" show ?thesis by (auto simp: insertR_Node)
  next
    case False
    from flipDown_cases[OF "2.prems"] obtain l1 r1 col1 where
      fd: "flipDown (Node s c fs l r col) = Some (Node s c fs l1 r1 col1)"
      and c1: "cinv l1" "cinv r1" "\<not> isRed r1" "col1 = 0 \<or> col1 = 1"
      and red1: "col1 = 1 \<longrightarrow> \<not> isRed l1"
      and keep: "col \<noteq> 0 \<longrightarrow> col1 = 1"
      and blk: "col = 0 \<and> \<not> (isRed l \<and> isRed r) \<longrightarrow> col1 = 0"
      and flp: "col = 0 \<and> isRed l \<and> isRed r \<longrightarrow>
              col1 = 1 \<and> l1 \<noteq> Leaf \<and> r1 \<noteq> Leaf \<and> \<not> four_node l1 \<and> \<not> four_node r1"
      and alm: "isRed l1 \<longrightarrow> almost l1"
      by blast
    have fd': "(if isRed l \<and> isRed r then colorFlip (Node s c fs l r col)
              else Some (Node s c fs l r col)) = Some (Node s c fs l1 r1 col1)"
      using fd by (simp add: flipDown_def)
    show ?thesis
    proof (cases "st_size st < s")
      case True
      from "2.IH"(1)[OF False fd' refl True c1(1)] obtain l' where
        il: "insertR l1 nm st = Some l'"
        and pl: "if isRed l1 then almost l'
                 else cinv l' \<and> (l1 \<noteq> Leaf \<and> \<not> four_node l1 \<longrightarrow> \<not> isRed l')"
        by blast
      have eq: "insertR (Node s c fs l r col) nm st = fixUp (Node s c fs l' r1 col1)"
        using False True fd il by (simp add: insertR_Node)
      show ?thesis
      proof (cases "col1 = 0")
        case True
        have "cinv l' \<or> almost l'" using pl by (auto split: if_splits)
        from fixUp_black_left[OF c1(2) c1(3) this, of s c fs] True eq keep flp
        show ?thesis by auto
      next
        case F1: False
        then have col1: "col1 = 1" using c1(4) by simp
        then have nl: "\<not> isRed l1" using red1 by simp
        then have cl: "cinv l'" using pl by simp
        from fixUp_red_left[OF c1(2) c1(3) cl, of s c fs] obtain t' where
          t': "fixUp (Node s c fs l' r1 1) = Some t'" "almost t'" "\<not> isRed l' \<longrightarrow> cinv t'"
          by blast
        show ?thesis
        proof (cases "col = 0")
          case True
          then have both: "isRed l \<and> isRed r" using blk col1 by auto
          with True flp nl pl have "\<not> isRed l'" by auto
          with t' eq col1 True both show ?thesis by auto
        next
          case False
          with t' eq col1 show ?thesis by auto
        qed
      qed
    next
      case ge: False
      from "2.IH"(2)[OF False fd' refl ge c1(2)] obtain r' where
        ir: "insertR r1 nm st = Some r'"
        and pr: "if isRed r1 then almost r'
                 else cinv r' \<and> (r1 \<noteq> Leaf \<and> \<not> four_node r1 \<longrightarrow> \<not> isRed r')"
        by blast
      have cr: "cinv r'" using pr c1(3) by simp
      have eq: "insertR (Node s c fs l r col) nm st = fixUp (Node s c fs l1 r' col1)"
        using False ge fd ir by (simp add: insertR_Node)
      show ?thesis
      proof (cases "col1 = 0")
        case True
        from fixUp_black_right[OF c1(1) cr, of s c fs] True eq keep flp
        show ?thesis by auto
      next
        case F1: False
        then have col1: "col1 = 1" using c1(4) by simp
        then have nl: "\<not> isRed l1" using red1 by simp
        from fixUp_red_right[OF c1(1) nl cr, of s c fs] obtain t' where
          t': "fixUp (Node s c fs l1 r' 1) = Some t'" "almost t'" "\<not> isRed r' \<longrightarrow> cinv t'"
          by blast
        show ?thesis
        proof (cases "col = 0")
          case True
          then have both: "isRed l \<and> isRed r" using blk col1 by auto
          with True flp c1(3) pr have "\<not> isRed r'" by auto
          with t' eq col1 True both show ?thesis by auto
        next
          case False
          with t' eq col1 show ?thesis by auto
        qed
      qed
    qed
  qed
qed

subsection \<open>The tree as a size-ordered list of buckets\<close>

text \<open>
  \<open>buckets\<close> lists the nodes in the order \<^verbatim>\<open>chkForDups\<close> walks them (left subtree,
  node, right subtree). On a search tree \<^verbatim>\<open>insertR\<close> acts on that list as
  \<open>ins_bucket\<close> does.
\<close>

fun buckets :: "Node \<Rightarrow> (int \<times> fe list) list" where
  "buckets Leaf = []"
| "buckets (Node s c fs l r col) = buckets l @ (s, fs) # buckets r"

definition bst :: "Node \<Rightarrow> bool" where
  "bst t = sorted_wrt (<) (map fst (buckets t))"

definition add_file :: "string \<Rightarrow> stat \<Rightarrow> fe list \<Rightarrow> fe list" where
  "add_file nm st fs =
     (if list_ex (\<lambda>fp. dev fp = st_dev st \<and> inode fp = st_ino st) fs then fs
      else newFileNode nm st # fs)"

fun ins_bucket :: "string \<Rightarrow> stat \<Rightarrow> (int \<times> fe list) list \<Rightarrow> (int \<times> fe list) list" where
  "ins_bucket nm st [] = [(st_size st, [newFileNode nm st])]"
| "ins_bucket nm st ((s, fs) # bs) =
     (if st_size st < s then (st_size st, [newFileNode nm st]) # (s, fs) # bs
      else if st_size st = s then (s, add_file nm st fs) # bs
      else (s, fs) # ins_bucket nm st bs)"

lemma ins_bucket_lt:
  "sorted_wrt (<) (map fst (xs @ (a, fs) # ys)) \<Longrightarrow> st_size st < a \<Longrightarrow>
   ins_bucket nm st (xs @ (a, fs) # ys) = ins_bucket nm st xs @ (a, fs) # ys"
  by (induction xs) (auto simp: sorted_wrt_append)

lemma ins_bucket_gt:
  "sorted_wrt (<) (map fst (xs @ (a, fs) # ys)) \<Longrightarrow> a < st_size st \<Longrightarrow>
   ins_bucket nm st (xs @ (a, fs) # ys) = xs @ (a, fs) # ins_bucket nm st ys"
  by (induction xs) (auto simp: sorted_wrt_append)

lemma ins_bucket_eq:
  "sorted_wrt (<) (map fst (xs @ (a, fs) # ys)) \<Longrightarrow> st_size st = a \<Longrightarrow>
   ins_bucket nm st (xs @ (a, fs) # ys) = xs @ (a, add_file nm st fs) # ys"
  by (induction xs) (auto simp: sorted_wrt_append)

lemma buckets_colorFlip: "colorFlip n = Some n' \<Longrightarrow> buckets n' = buckets n"
  by (induction n rule: colorFlip.induct) (auto split: if_splits)

lemma buckets_flipDown: "flipDown n = Some n' \<Longrightarrow> buckets n' = buckets n"
  by (auto simp: flipDown_def buckets_colorFlip split: if_splits)

lemma buckets_rotateLeft: "rotateLeft n = Some n' \<Longrightarrow> buckets n' = buckets n"
  by (induction n rule: rotateLeft.induct) auto

lemma buckets_rotateRight: "rotateRight n = Some n' \<Longrightarrow> buckets n' = buckets n"
  by (induction n rule: rotateRight.induct) auto

lemma buckets_fixUp: "fixUp n = Some n' \<Longrightarrow> buckets n' = buckets n"
  by (auto simp: fixUp_def buckets_rotateLeft buckets_rotateRight split: option.splits if_splits)

lemma flipDown_shape:
  "flipDown (Node s c fs l r col) = Some n' \<Longrightarrow>
   \<exists>l1 r1 col1. n' = Node s c fs l1 r1 col1 \<and> buckets l1 = buckets l \<and> buckets r1 = buckets r"
  by (cases l; cases r) (auto simp: flipDown_def split: if_splits)

lemma set_fst_ins_bucket:
  "fst ` set (ins_bucket nm st bs) = insert (st_size st) (fst ` set bs)"
proof (induction bs)
  case Nil
  show ?case by simp
next
  case (Cons b bs)
  obtain s fs where b: "b = (s, fs)" by (cases b)
  show ?case
  proof (cases "st_size st < s")
    case True
    then show ?thesis by (simp add: b insert_commute)
  next
    case False
    show ?thesis
    proof (cases "st_size st = s")
      case True
      then show ?thesis by (simp add: b)
    next
      case ne: False
      have "fst ` set (ins_bucket nm st (b # bs)) = insert s (fst ` set (ins_bucket nm st bs))"
        using False ne by (simp add: b)
      also have "\<dots> = insert s (insert (st_size st) (fst ` set bs))"
        by (simp only: Cons.IH)
      finally show ?thesis by (simp add: b insert_commute)
    qed
  qed
qed

lemma sorted_ins_bucket:
  "sorted_wrt (<) (map fst bs) \<Longrightarrow> sorted_wrt (<) (map fst (ins_bucket nm st bs))"
proof (induction bs)
  case Nil
  then show ?case by simp
next
  case (Cons b bs)
  obtain s fs where b: "b = (s, fs)" by (cases b)
  show ?case
  proof (cases "st_size st < s")
    case True
    with Cons.prems b show ?thesis by auto
  next
    case False
    show ?thesis
    proof (cases "st_size st = s")
      case True
      with Cons.prems b show ?thesis by auto
    next
      case ne: False
      have "\<forall>k \<in> fst ` set (ins_bucket nm st bs). s < k"
        unfolding set_fst_ins_bucket using Cons.prems b False ne by auto
      moreover have "sorted_wrt (<) (map fst (ins_bucket nm st bs))"
        using Cons.IH Cons.prems by simp
      ultimately show ?thesis using b False ne by simp
    qed
  qed
qed

lemma buckets_insertR:
  "bst t \<Longrightarrow> insertR t nm st = Some t' \<Longrightarrow> buckets t' = ins_bucket nm st (buckets t)"
proof (induction t nm st arbitrary: t' rule: insertR.induct)
  case (1 nm st)
  then show ?case by auto
next
  case (2 s c fs l r col nm st)
  have srt: "sorted_wrt (<) (map fst (buckets l @ (s, fs) # buckets r))"
    using "2.prems"(1) by (simp add: bst_def)
  show ?case
  proof (cases "st_size st = s")
    case True
    with "2.prems"(2) have "buckets t' = buckets l @ (s, add_file nm st fs) # buckets r"
      by (auto simp: insertR_Node add_file_def split: if_splits)
    with ins_bucket_eq[OF srt True] show ?thesis by simp
  next
    case False
    from "2.prems"(2) False obtain n1 where fd: "flipDown (Node s c fs l r col) = Some n1"
      by (auto simp: insertR_Node split: option.splits)
    from flipDown_shape[OF fd] obtain l1 r1 col1 where
      n1: "n1 = Node s c fs l1 r1 col1" and bl: "buckets l1 = buckets l" and br: "buckets r1 = buckets r"
      by blast
    have fd': "(if isRed l \<and> isRed r then colorFlip (Node s c fs l r col)
              else Some (Node s c fs l r col)) = Some n1"
      using fd by (simp add: flipDown_def)
    have bl1: "bst l1" and br1: "bst r1"
      using srt bl br by (auto simp: bst_def sorted_wrt_append)
    show ?thesis
    proof (cases "st_size st < s")
      case True
      from "2.prems"(2) False True fd n1 obtain l' where
        il: "insertR l1 nm st = Some l'" and fu: "fixUp (Node s c fs l' r1 col1) = Some t'"
        by (auto simp: insertR_Node split: option.splits)
      from "2.IH"(1)[OF False fd' n1 True bl1 il] have "buckets l' = ins_bucket nm st (buckets l)"
        using bl by simp
      with buckets_fixUp[OF fu] br ins_bucket_lt[OF srt True] show ?thesis by simp
    next
      case ge: False
      from "2.prems"(2) False ge fd n1 obtain r' where
        ir: "insertR r1 nm st = Some r'" and fu: "fixUp (Node s c fs l1 r' col1) = Some t'"
        by (auto simp: insertR_Node split: option.splits)
      from "2.IH"(2)[OF False fd' n1 ge br1 ir] have "buckets r' = ins_bucket nm st (buckets r)"
        using br by simp
      moreover have "s < st_size st" using False ge by simp
      ultimately show ?thesis
        using buckets_fixUp[OF fu] bl ins_bucket_gt[OF srt] by simp
    qed
  qed
qed

section \<open>Traversal callbacks\<close>

text \<open>
  \<open>insertRoot\<close> is the source's \<^verbatim>\<open>insert\<close> with the global \<^verbatim>\<open>root\<close> passed and
  returned; \<open>visit\<close> is the \<^verbatim>\<open>nftw\<close> callback; \<open>walk\<close> runs the callbacks of one
  traversal in order.
\<close>

datatype ftw_flag = FTW_F | FTW_D | FTW_DNR | FTW_NS | FTW_SL | FTW_DP | FTW_SLN

definition insertRoot :: "Node \<Rightarrow> string \<Rightarrow> stat \<Rightarrow> Node option" where
  "insertRoot root nm st =
     (case insertR root nm st of
        None \<Rightarrow> None
      | Some Leaf \<Rightarrow> None
      | Some (Node s c fs l r col) \<Rightarrow> Some (Node s c fs l r 0))"

definition visit :: "Node \<Rightarrow> string \<Rightarrow> stat \<Rightarrow> ftw_flag \<Rightarrow> Node option" where
  "visit root nm st flag = (if flag = FTW_F then insertRoot root nm st else Some root)"

type_synonym call = "string \<times> stat \<times> ftw_flag"

fun walk :: "Node \<Rightarrow> call list \<Rightarrow> Node option" where
  "walk root [] = Some root"
| "walk root ((nm, st, flag) # cs) =
     (case visit root nm st flag of None \<Rightarrow> None | Some root' \<Rightarrow> walk root' cs)"

definition root_ok :: "Node \<Rightarrow> bool" where
  "root_ok t = (cinv t \<and> \<not> isRed t \<and> bst t)"

definition dev_ino :: "fe \<Rightarrow> nat \<times> nat" where
  "dev_ino f = (dev f, inode f)"

text \<open>
  The specification's insert, following its words: scan the bucket for a matching
  (device, inode); if found discard the new identity, otherwise append it at the end.
  \<open>spec_bucket s [] cs\<close> is the bucket of size \<open>s\<close> after the calls \<open>cs\<close> under that
  reading, in arrival order.
\<close>

definition spec_add_file :: "string \<Rightarrow> stat \<Rightarrow> fe list \<Rightarrow> fe list" where
  "spec_add_file nm st fs =
     (if list_ex (\<lambda>fp. dev fp = st_dev st \<and> inode fp = st_ino st) fs then fs
      else fs @ [newFileNode nm st])"

fun spec_bucket :: "int \<Rightarrow> fe list \<Rightarrow> call list \<Rightarrow> fe list" where
  "spec_bucket s acc [] = acc"
| "spec_bucket s acc ((nm, st, flag) # cs) =
     spec_bucket s (if flag = FTW_F \<and> st_size st = s then spec_add_file nm st acc else acc) cs"

lemma root_ok_Leaf: "root_ok Leaf"
  by (simp add: root_ok_def bst_def)

lemma insertRoot_ok:
  assumes "root_ok t"
  shows "\<exists>t'. insertRoot t nm st = Some t' \<and> root_ok t' \<and>
              buckets t' = ins_bucket nm st (buckets t)"
proof -
  from assms have c: "cinv t" and nr: "\<not> isRed t" and b: "bst t"
    by (simp_all add: root_ok_def)
  from insertR_color[OF c, of nm st] nr obtain t1 where
    i: "insertR t nm st = Some t1" and c1: "cinv t1" by auto
  from buckets_insertR[OF b i] have b1: "buckets t1 = ins_bucket nm st (buckets t)" .
  then have "t1 \<noteq> Leaf" by (cases "buckets t"; cases t1) (auto split: if_splits)
  then obtain s cc fs l r col where t1: "t1 = Node s cc fs l r col" by (cases t1) auto
  let ?t' = "Node s cc fs l r 0"
  have "insertRoot t nm st = Some ?t'" by (simp add: insertRoot_def i t1)
  moreover have "buckets ?t' = ins_bucket nm st (buckets t)" using b1 t1 by simp
  moreover have "cinv ?t'" using c1 t1 by auto
  moreover have "bst ?t'"
    using sorted_ins_bucket[of "buckets t" nm st] b b1 t1 by (simp add: bst_def)
  ultimately show ?thesis by (simp add: root_ok_def)
qed

fun ins_calls :: "(int \<times> fe list) list \<Rightarrow> call list \<Rightarrow> (int \<times> fe list) list" where
  "ins_calls bs [] = bs"
| "ins_calls bs ((nm, st, flag) # cs) =
     ins_calls (if flag = FTW_F then ins_bucket nm st bs else bs) cs"

lemma walk_ok:
  "root_ok t \<Longrightarrow> \<exists>t'. walk t cs = Some t' \<and> root_ok t' \<and> buckets t' = ins_calls (buckets t) cs"
proof (induction cs arbitrary: t)
  case Nil
  then show ?case by simp
next
  case (Cons c cs)
  obtain nm st flag where c: "c = (nm, st, flag)" by (cases c)
  show ?case
  proof (cases "flag = FTW_F")
    case True
    from insertRoot_ok[OF Cons.prems, of nm st] obtain t1 where
      "insertRoot t nm st = Some t1" "root_ok t1" "buckets t1 = ins_bucket nm st (buckets t)"
      by blast
    with Cons.IH[of t1] True c show ?thesis by (simp add: visit_def)
  next
    case False
    with Cons.IH[OF Cons.prems] c show ?thesis by (simp add: visit_def)
  qed
qed

lemma distinct_add_file:
  "distinct (map dev_ino fs) \<Longrightarrow> distinct (map dev_ino (add_file nm st fs))"
  by (auto simp: add_file_def list_ex_iff dev_ino_def newFileNode_def)

lemma distinct_ins_bucket:
  "\<forall>(s, fs) \<in> set bs. distinct (map dev_ino fs) \<Longrightarrow>
   \<forall>(s, fs) \<in> set (ins_bucket nm st bs). distinct (map dev_ino fs)"
  by (induction bs) (auto simp: distinct_add_file newFileNode_def split: if_splits)

lemma distinct_ins_calls:
  "\<forall>(s, fs) \<in> set bs. distinct (map dev_ino fs) \<Longrightarrow>
   \<forall>(s, fs) \<in> set (ins_calls bs cs). distinct (map dev_ino fs)"
proof (induction cs arbitrary: bs)
  case Nil
  then show ?case by simp
next
  case (Cons c cs)
  obtain nm st flag where c: "c = (nm, st, flag)" by (cases c)
  show ?case using Cons.IH[OF distinct_ins_bucket[OF Cons.prems]] Cons.IH[OF Cons.prems] c
    by simp
qed

lemma ins_bucket_hard_link:
  "sorted_wrt (<) (map fst bs) \<Longrightarrow> (s, fs) \<in> set bs \<Longrightarrow> st_size st = s \<Longrightarrow>
   list_ex (\<lambda>fp. dev fp = st_dev st \<and> inode fp = st_ino st) fs \<Longrightarrow>
   ins_bucket nm st bs = bs"
  by (induction bs) (auto simp: add_file_def)

lemma map_of_none_below:
  "sorted_wrt (<) (map fst bs) \<Longrightarrow> \<forall>k \<in> fst ` set bs. x < k \<Longrightarrow> map_of bs (x::int) = None"
  by (induction bs) auto

lemma map_of_ins_bucket:
  "sorted_wrt (<) (map fst bs) \<Longrightarrow>
   map_of (ins_bucket nm st bs) =
     (map_of bs)(st_size st \<mapsto>
        (case map_of bs (st_size st) of None \<Rightarrow> [newFileNode nm st]
         | Some fs \<Rightarrow> add_file nm st fs))"
proof (induction bs)
  case Nil
  then show ?case by simp
next
  case (Cons b bs)
  obtain s fs where b: "b = (s, fs)" by (cases b)
  show ?case
  proof (cases "st_size st < s")
    case True
    have "map_of bs (st_size st) = None"
      using Cons.prems True b by (intro map_of_none_below) auto
    with True b show ?thesis by auto
  next
    case False
    show ?thesis
    proof (cases "st_size st = s")
      case True
      with b show ?thesis by auto
    next
      case ne: False
      have "sorted_wrt (<) (map fst bs)" using Cons.prems by simp
      from Cons.IH[OF this] False ne b show ?thesis by auto
    qed
  qed
qed

lemma spec_bucket_snoc:
  "spec_bucket s acc (cs @ [(nm, st, flag)]) =
     (if flag = FTW_F \<and> st_size st = s then spec_add_file nm st (spec_bucket s acc cs)
      else spec_bucket s acc cs)"
  by (induction s acc cs rule: spec_bucket.induct) auto

lemma ins_calls_snoc:
  "ins_calls bs (cs @ [(nm, st, flag)]) =
     (if flag = FTW_F then ins_bucket nm st (ins_calls bs cs) else ins_calls bs cs)"
  by (induction bs cs rule: ins_calls.induct) auto

lemma sorted_ins_calls:
  "sorted_wrt (<) (map fst bs) \<Longrightarrow> sorted_wrt (<) (map fst (ins_calls bs cs))"
  by (induction bs cs rule: ins_calls.induct) (auto simp: sorted_ins_bucket)

lemma rev_spec_add_file: "rev (spec_add_file nm st xs) = add_file nm st (rev xs)"
  by (simp add: spec_add_file_def add_file_def list_ex_iff)

lemma spec_add_file_nonempty: "spec_add_file nm st xs = [] \<longleftrightarrow> False"
  by (auto simp: spec_add_file_def list_ex_iff)

lemma map_of_ins_calls:
  "map_of (ins_calls [] cs) s =
     (if spec_bucket s [] cs = [] then None else Some (rev (spec_bucket s [] cs)))"
proof (induction cs rule: rev_induct)
  case Nil
  show ?case by simp
next
  case (snoc c cs)
  obtain nm st flag where c: "c = (nm, st, flag)" by (cases c)
  have srt: "sorted_wrt (<) (map fst (ins_calls [] cs))"
    by (rule sorted_ins_calls) simp
  show ?case
  proof (cases "flag = FTW_F")
    case False
    with snoc c show ?thesis by (simp add: ins_calls_snoc spec_bucket_snoc)
  next
    case True
    show ?thesis
    proof (cases "st_size st = s")
      case False
      with True snoc c show ?thesis
        by (simp add: ins_calls_snoc spec_bucket_snoc map_of_ins_bucket[OF srt])
    next
      case eq: True
      show ?thesis
        using True eq snoc.IH c
        by (simp add: ins_calls_snoc spec_bucket_snoc map_of_ins_bucket[OF srt]
            spec_add_file_nonempty rev_spec_add_file)
           (simp add: add_file_def spec_add_file_def)
    qed
  qed
qed

lemma in_sorted_buckets:
  "sorted_wrt (<) (map fst bs) \<Longrightarrow> (s, fs) \<in> set bs \<longleftrightarrow> map_of bs (s::int) = Some fs"
  using strict_sorted_iff[of "map fst bs"] by (auto simp: map_of_eq_Some_iff)

definition hard_link_of :: "stat \<Rightarrow> fe list \<Rightarrow> bool" where
  "hard_link_of st fs = list_ex (\<lambda>fp. dev fp = st_dev st \<and> inode fp = st_ino st) fs"

section \<open>Claims about the size index\<close>

text \<open>
  C7. After any sequence of traversal callbacks starting from the empty index, the run
  has not aborted, every size occurs in one bucket only, no bucket holds two entries
  with the same (device, inode), and inserting an identity whose device and inode match
  an entry of the bucket of its size leaves every bucket unchanged.
\<close>

theorem hard_link_suppression:
  "\<exists>t. walk Leaf cs = Some t \<and> distinct (map fst (buckets t)) \<and>
     (\<forall>(s, fs) \<in> set (buckets t).
        distinct (map dev_ino fs) \<and>
        (\<forall>nm st. st_size st = s \<and> hard_link_of st fs \<longrightarrow>
           (\<exists>t'. insertRoot t nm st = Some t' \<and> buckets t' = buckets t)))"
proof -
  from walk_ok[OF root_ok_Leaf, of cs] obtain t where
    w: "walk Leaf cs = Some t" and ok: "root_ok t" and b: "buckets t = ins_calls [] cs"
    by auto
  have srt: "sorted_wrt (<) (map fst (buckets t))" using ok by (simp add: root_ok_def bst_def)
  then have d: "distinct (map fst (buckets t))" using strict_sorted_iff by blast
  have dd: "\<forall>(s, fs) \<in> set (buckets t). distinct (map dev_ino fs)"
    unfolding b by (rule distinct_ins_calls) simp
  have hl: "\<exists>t'. insertRoot t nm st = Some t' \<and> buckets t' = buckets t"
    if "(s, fs) \<in> set (buckets t)" "st_size st = s" "hard_link_of st fs" for s fs nm st
  proof -
    from insertRoot_ok[OF ok, of nm st] obtain t' where
      "insertRoot t nm st = Some t'" "buckets t' = ins_bucket nm st (buckets t)" by blast
    moreover have "ins_bucket nm st (buckets t) = buckets t"
      using ins_bucket_hard_link[OF srt that(1,2)] that(3) by (simp add: hard_link_of_def)
    ultimately show ?thesis by simp
  qed
  show ?thesis
    using w d dd hl by (intro exI[of _ t]) fastforce
qed

text \<open>Two hard links \<open>a\<close> and \<open>b\<close> of one file: only \<open>a\<close> is kept.\<close>

definition cs_links :: "call list" where
  "cs_links = [(''a'', \<lparr>st_size = 3, st_dev = 1, st_ino = 7\<rparr>, FTW_F),
               (''b'', \<lparr>st_size = 3, st_dev = 1, st_ino = 7\<rparr>, FTW_F)]"

lemma walk_cs_links:
  "walk Leaf cs_links = Some (Node 3 1 [\<lparr>name = ''a'', dev = 1, inode = 7\<rparr>] Leaf Leaf 0)"
  by (simp add: cs_links_def visit_def insertRoot_def insertR.simps newFileNode_def)

theorem hard_link_suppression_witness:
  "walk Leaf cs_links = Some (Node 3 1 [\<lparr>name = ''a'', dev = 1, inode = 7\<rparr>] Leaf Leaf 0) \<and>
   buckets (Node 3 1 [\<lparr>name = ''a'', dev = 1, inode = 7\<rparr>] Leaf Leaf 0)
     = [(3, [\<lparr>name = ''a'', dev = 1, inode = 7\<rparr>])] \<and>
   hard_link_of \<lparr>st_size = 3, st_dev = 1, st_ino = 7\<rparr> [\<lparr>name = ''a'', dev = 1, inode = 7\<rparr>] \<and>
   distinct (map dev_ino [\<lparr>name = ''a'', dev = 1, inode = 7\<rparr>]) \<and>
   (\<exists>t'. insertRoot (Node 3 1 [\<lparr>name = ''a'', dev = 1, inode = 7\<rparr>] Leaf Leaf 0) ''c''
            \<lparr>st_size = 3, st_dev = 1, st_ino = 7\<rparr> = Some t' \<and>
         buckets t' = [(3, [\<lparr>name = ''a'', dev = 1, inode = 7\<rparr>])])"
  using hard_link_suppression[of cs_links]
  by (simp add: walk_cs_links hard_link_of_def insertRoot_def insertR.simps)

text \<open>
  C2 (amended). \<^verbatim>\<open>insertR\<close> links a new identity in front of the bucket's list
  (\<^verbatim>\<open>fp->next = node->files; node->files = fp\<close>), so every bucket holds the retained
  identities in reverse arrival order, the most recent first; the indices \<open>0..cnt-1\<close>
  of the resolver are positions in that list.
\<close>

theorem bucket_reverse_arrival_order:
  "\<exists>t. walk Leaf cs = Some t \<and>
     (\<forall>(s, fs) \<in> set (buckets t). fs = rev (spec_bucket s [] cs)) \<and>
     (\<forall>s. spec_bucket s [] cs \<noteq> [] \<longrightarrow> (s, rev (spec_bucket s [] cs)) \<in> set (buckets t))"
proof -
  from walk_ok[OF root_ok_Leaf, of cs] obtain t where
    w: "walk Leaf cs = Some t" and ok: "root_ok t" and b: "buckets t = ins_calls [] cs"
    by auto
  have srt: "sorted_wrt (<) (map fst (buckets t))" using ok by (simp add: root_ok_def bst_def)
  have "fs = rev (spec_bucket s [] cs)" if "(s, fs) \<in> set (buckets t)" for s fs
    using that in_sorted_buckets[OF srt, of s fs] map_of_ins_calls[of cs s]
    by (simp add: b split: if_splits)
  moreover have "(s, rev (spec_bucket s [] cs)) \<in> set (buckets t)"
    if "spec_bucket s [] cs \<noteq> []" for s
    using that in_sorted_buckets[OF srt, of s "rev (spec_bucket s [] cs)"] map_of_ins_calls[of cs s]
    by (simp add: b)
  ultimately show ?thesis using w by (intro exI[of _ t]) fastforce
qed

text \<open>
  C2 as stated fails: \<open>a\<close> then \<open>b\<close>, two distinct files of size 3, give the bucket
  \<open>[b, a]\<close>, not \<open>[a, b]\<close>.
\<close>

definition cs_two :: "call list" where
  "cs_two = [(''a'', \<lparr>st_size = 3, st_dev = 1, st_ino = 7\<rparr>, FTW_F),
             (''b'', \<lparr>st_size = 3, st_dev = 1, st_ino = 8\<rparr>, FTW_F)]"

lemma walk_cs_two:
  "walk Leaf cs_two = Some (Node 3 1 [\<lparr>name = ''b'', dev = 1, inode = 8\<rparr>,
                                     \<lparr>name = ''a'', dev = 1, inode = 7\<rparr>] Leaf Leaf 0)"
  by (simp add: cs_two_def visit_def insertRoot_def insertR.simps newFileNode_def)

lemma spec_bucket_cs_two:
  "spec_bucket 3 [] cs_two = [\<lparr>name = ''a'', dev = 1, inode = 7\<rparr>, \<lparr>name = ''b'', dev = 1, inode = 8\<rparr>]"
  by (simp add: cs_two_def spec_add_file_def newFileNode_def)

theorem bucket_arrival_order_counterexample:
  "map_option buckets (walk Leaf cs_two)
     = Some [(3, [\<lparr>name = ''b'', dev = 1, inode = 8\<rparr>, \<lparr>name = ''a'', dev = 1, inode = 7\<rparr>])] \<and>
   spec_bucket 3 [] cs_two
     = [\<lparr>name = ''a'', dev = 1, inode = 7\<rparr>, \<lparr>name = ''b'', dev = 1, inode = 8\<rparr>] \<and>
   map_option buckets (walk Leaf cs_two) \<noteq> Some [(3, spec_bucket 3 [] cs_two)]"
  by (simp add: walk_cs_two spec_bucket_cs_two)

theorem bucket_reverse_arrival_order_witness:
  "walk Leaf cs_two = Some (Node 3 1 [\<lparr>name = ''b'', dev = 1, inode = 8\<rparr>,
                                     \<lparr>name = ''a'', dev = 1, inode = 7\<rparr>] Leaf Leaf 0) \<and>
   (3, [\<lparr>name = ''b'', dev = 1, inode = 8\<rparr>, \<lparr>name = ''a'', dev = 1, inode = 7\<rparr>])
     \<in> set (buckets (Node 3 1 [\<lparr>name = ''b'', dev = 1, inode = 8\<rparr>,
                                     \<lparr>name = ''a'', dev = 1, inode = 7\<rparr>] Leaf Leaf 0)) \<and>
   spec_bucket 3 [] cs_two \<noteq> [] \<and>
   [\<lparr>name = ''b'', dev = 1, inode = 8\<rparr>, \<lparr>name = ''a'', dev = 1, inode = 7\<rparr>]
     = rev (spec_bucket 3 [] cs_two)"
  using bucket_reverse_arrival_order[of cs_two]
  by (simp add: walk_cs_two spec_bucket_cs_two)

section \<open>The duplicate resolver\<close>

text \<open>
  Files are read through a static file system: \<open>content fs p\<close> is the byte sequence of
  the file at path \<open>p\<close> for the whole run, and a \<^verbatim>\<open>read\<close> on a regular file returns
  the next \<^verbatim>\<open>BUFSIZE\<close> bytes, fewer only at the end of the file. Whether
  \<^verbatim>\<open>open\<close>, \<^verbatim>\<open>lseek\<close> or \<^verbatim>\<open>read\<close> fails is given by \<open>open_fails\<close>, \<open>seek_fails\<close> (path
  and offset) and \<open>read_fails\<close> (path and file position).
\<close>

definition BUFSIZE :: nat where
  "BUFSIZE = 1024"

record filesys =
  content :: "string \<Rightarrow> string"
  open_fails :: "string \<Rightarrow> bool"
  seek_fails :: "string \<Rightarrow> int \<Rightarrow> bool"
  read_fails :: "string \<Rightarrow> nat \<Rightarrow> bool"

record dupNode =
  dsize :: int
  dfiles :: "fe list"

text \<open>
  The trace of a bucket's resolution: every system call, in order, together with the two
  decision points of the inner loop. \<open>Inferred i j\<close> stands where the source prints
  "Skipping comparison ... because of prefix length diff" in its debug build (the pair of
  positions \<open>i\<close>, \<open>j\<close> is skipped by the inference); \<open>Comparing i j s\<close> stands just before
  the two files are opened, with \<open>s\<close> the value of \<^verbatim>\<open>maxToSkip\<close>. \<open>Read p pos\<close> is a
  \<^verbatim>\<open>read\<close> on \<open>p\<close> at file position \<open>pos\<close>.
\<close>

datatype event =
    Inferred nat nat
  | Comparing nat nat int
  | Open string
  | Lseek string int
  | Read string nat
  | Close string

datatype line = Header int | Path string | ErrorOpening string

text \<open>
  How the process ends. An \<open>outcome\<close> is an exit: the lines printed on standard output,
  the messages sent to \<^verbatim>\<open>syslog\<close>, the exit status, and the trace. An \<open>ending\<close> is either
  such an exit or \<open>Undefined\<close>: the run has reached an operation to which the C language
  gives no meaning (a read from freed memory, a signed overflow, a conversion of a format
  string that takes an argument that was not passed), and nothing is known of the process
  from there on; \<open>Undefined\<close> keeps the trace up to that operation.
\<close>

record 't outcome =
  out :: "line list"
  syslog :: "string list"
  status :: int
  events :: 't

record bstate =
  ar :: "int list"
  fflags :: "int list"
  dn :: "dupNode option"
  retval :: "dupNode list"
  trace :: "event list"

datatype 't ending = Exit "'t outcome" | Undefined 't

fun ending_events :: "'t ending \<Rightarrow> 't" where
  "ending_events (Exit e) = events e"
| "ending_events (Undefined tr) = tr"

fun map_ending :: "('t \<Rightarrow> 'u) \<Rightarrow> 't ending \<Rightarrow> 'u ending" where
  "map_ending f (Exit e) = Exit \<lparr>out = out e, syslog = syslog e, status = status e, events = f (events e)\<rparr>"
| "map_ending f (Undefined tr) = Undefined (f tr)"

text \<open>
  \<^verbatim>\<open>error_exit\<close> concatenates its two strings and passes the result to \<^verbatim>\<open>syslog\<close> as the
  format string, with no further argument (source line 49). \<open>syslog_fmt\<close> is what is
  logged: characters other than \<open>%\<close> are copied, \<open>%%\<close> gives \<open>%\<close>, and any other conversion
  (one that takes an argument, or \<open>%m\<close>, which depends on \<^verbatim>\<open>errno\<close>) gives no defined
  message. After a defined message the process exits with status 1.
\<close>

fun syslog_fmt :: "string \<Rightarrow> string option" where
  "syslog_fmt [] = Some []"
| "syslog_fmt [c] = (if c = CHR ''%'' then None else Some [c])"
| "syslog_fmt (c # d # cs) =
     (if c = CHR ''%''
      then if d = CHR ''%'' then map_option ((#) CHR ''%'') (syslog_fmt cs) else None
      else map_option ((#) c) (syslog_fmt (d # cs)))"

definition error_exit :: "string \<Rightarrow> string \<Rightarrow> line list \<Rightarrow> 't \<Rightarrow> 't ending" where
  "error_exit errorMsg parm printed tr =
     (case syslog_fmt (errorMsg @ parm) of
        None \<Rightarrow> Undefined tr
      | Some msg \<Rightarrow> Exit \<lparr>out = printed, syslog = [msg], status = 1, events = tr\<rparr>)"

text \<open>
  The counters \<^verbatim>\<open>cnt\<close>, \<^verbatim>\<open>i\<close>, \<^verbatim>\<open>j\<close> and \<^verbatim>\<open>pr\<close> are of type \<^verbatim>\<open>int\<close>, 32 bits wide, and the
  ledger indices \<^verbatim>\<open>pr*cnt + i\<close> and \<^verbatim>\<open>i*cnt + j\<close> and the size \<^verbatim>\<open>cnt * cnt\<close> passed to
  \<^verbatim>\<open>calloc\<close> are computed in that type. \<open>int32\<close> is the two's complement value of a
  result, and \<open>idx i cnt j\<close> the index \<^verbatim>\<open>i*cnt + j\<close> so computed. A signed overflow is
  undefined in C: \<open>chkNode\<close> below ends the run as \<open>Undefined\<close> before any of these
  computations can overflow, and up to \<open>INT_MAX\<close> they are exact.
\<close>

definition INT_MAX :: nat where
  "INT_MAX = 2147483647"

definition int32 :: "int \<Rightarrow> int" where
  "int32 x = sint (word_of_int x :: 32 word)"

definition idx :: "nat \<Rightarrow> nat \<Rightarrow> nat \<Rightarrow> nat" where
  "idx i cnt j = nat (int32 (int32 (int i * int cnt) + int j))"

text \<open>
  \<^verbatim>\<open>addDupNode\<close> takes the size as an \<^verbatim>\<open>int\<close>, so the \<^verbatim>\<open>long\<close> size of the node is
  truncated to 32 bits before it is stored in the group.
\<close>

definition addDupNode :: "int \<Rightarrow> fe \<Rightarrow> dupNode option \<Rightarrow> dupNode" where
  "addDupNode sz file rv =
     (case rv of
        None \<Rightarrow> \<lparr>dsize = sint (word_of_int sz :: 32 word), dfiles = [file]\<rparr>
      | Some d \<Rightarrow> d\<lparr>dfiles := file # dfiles d\<rparr>)"

text \<open>
  The scan of the previous rows (source lines 255 to 268): \<open>-1\<close> as soon as a row
  \<open>pr < i\<close> holds different values in columns \<open>i\<close> and \<open>j\<close>, otherwise the largest value
  seen in column \<open>i\<close>.
\<close>

function scan_rows :: "nat \<Rightarrow> int list \<Rightarrow> nat \<Rightarrow> nat \<Rightarrow> nat \<Rightarrow> int \<Rightarrow> int" where
  "scan_rows cnt a i j pr maxToSkip =
     (if pr < i
      then if a ! idx pr cnt i \<noteq> a ! idx pr cnt j then -1
           else scan_rows cnt a i j (pr + 1)
                  (if a ! idx pr cnt i > maxToSkip then a ! idx pr cnt i else maxToSkip)
      else maxToSkip)"
  by pat_completeness auto
termination
  by (relation "measure (\<lambda>(cnt, a, i, j, pr, m). i - pr)") auto

text \<open>
  The chunk loop (source lines 302 to 340). Both descriptors are at the same position
  \<open>pos\<close>: they start at the same offset and the loop goes on only after both reads
  returned the same count.
\<close>

definition read_chunk :: "filesys \<Rightarrow> string \<Rightarrow> nat \<Rightarrow> string" where
  "read_chunk fs path pos = take BUFSIZE (drop pos (content fs path))"

definition found_dups :: "fe list \<Rightarrow> int \<Rightarrow> nat \<Rightarrow> nat \<Rightarrow> bstate \<Rightarrow> bstate" where
  "found_dups files sz i j st =
     st\<lparr>dn := Some (addDupNode sz (files ! j)
                     (if fflags st ! i = 0 then Some (addDupNode sz (files ! i) (dn st))
                      else dn st)),
        fflags := (fflags st)[i := 1, j := 1]\<rparr>"

function cmp_loop ::
  "filesys \<Rightarrow> fe list \<Rightarrow> int \<Rightarrow> nat \<Rightarrow> nat \<Rightarrow> nat \<Rightarrow> bstate \<Rightarrow> event list ending + bstate" where
  "cmp_loop fs files sz i j pos st =
     (if read_fails fs (name (files ! i)) pos \<or> read_fails fs (name (files ! j)) pos
      then Inl (error_exit ''Error reading ''
                  (if read_fails fs (name (files ! i)) pos then name (files ! i)
                   else name (files ! j)) []
                  (trace st @ [Read (name (files ! i)) pos, Read (name (files ! j)) pos,
                               Close (name (files ! j)), Close (name (files ! i))]))
      else if length (read_chunk fs (name (files ! i)) pos)
                \<noteq> length (read_chunk fs (name (files ! j)) pos)
      then Inr (st\<lparr>trace := trace st @ [Read (name (files ! i)) pos, Read (name (files ! j)) pos]\<rparr>)
      else if read_chunk fs (name (files ! i)) pos \<noteq> read_chunk fs (name (files ! j)) pos
      then Inr (st\<lparr>trace := trace st @ [Read (name (files ! i)) pos, Read (name (files ! j)) pos]\<rparr>)
      else if length (read_chunk fs (name (files ! i)) pos) = 0
      then Inr (found_dups files sz i j
                  (st\<lparr>ar := (ar st)[idx i (length files) j :=
                                ar st ! idx i (length files) j
                                  + int (length (read_chunk fs (name (files ! i)) pos))],
                      trace := trace st @ [Read (name (files ! i)) pos, Read (name (files ! j)) pos]\<rparr>))
      else cmp_loop fs files sz i j (pos + length (read_chunk fs (name (files ! i)) pos))
             (st\<lparr>ar := (ar st)[idx i (length files) j :=
                                ar st ! idx i (length files) j
                                  + int (length (read_chunk fs (name (files ! i)) pos))],
                 trace := trace st @ [Read (name (files ! i)) pos, Read (name (files ! j)) pos]\<rparr>))"
  by pat_completeness auto
termination
  by (relation "measure (\<lambda>(fs, files, sz, i, j, pos, st). length (content fs (name (files ! i))) - pos)")
     (auto simp: read_chunk_def)

text \<open>
  The body of the inner loop for a pair whose column is not flagged (source lines 249
  to 342).
\<close>

definition pair_step ::
  "filesys \<Rightarrow> fe list \<Rightarrow> int \<Rightarrow> nat \<Rightarrow> nat \<Rightarrow> bstate \<Rightarrow> event list ending + bstate" where
  "pair_step fs files sz i j st =
     (let fi = name (files ! i); fj = name (files ! j);
          maxToSkip = scan_rows (length files) (ar st) i j 0 0
      in if maxToSkip < 0 then Inr (st\<lparr>trace := trace st @ [Inferred i j]\<rparr>)
         else if open_fails fs fi
         then Inl (error_exit ''Error opening '' fi [ErrorOpening fi]
                     (trace st @ [Comparing i j maxToSkip, Open fi]))
         else if open_fails fs fj
         then Inl (error_exit ''Error opening '' fj []
                     (trace st @ [Comparing i j maxToSkip, Open fi, Open fj]))
         else if maxToSkip > 0 \<and> (seek_fails fs fi maxToSkip \<or> seek_fails fs fj maxToSkip)
         then Inl (error_exit ''Error seeking in ''
                     (if seek_fails fs fi maxToSkip then fi else fj) []
                     (trace st @ [Comparing i j maxToSkip, Open fi, Open fj,
                                  Lseek fi maxToSkip, Lseek fj maxToSkip, Close fj, Close fi]))
         else (case cmp_loop fs files sz i j (nat maxToSkip)
                      (st\<lparr>trace := trace st @ [Comparing i j maxToSkip, Open fi, Open fj]
                                      @ (if maxToSkip > 0
                                         then [Lseek fi maxToSkip, Lseek fj maxToSkip] else [])\<rparr>) of
                 Inl e \<Rightarrow> Inl e
               | Inr st' \<Rightarrow> Inr (st'\<lparr>trace := trace st' @ [Close fj, Close fi]\<rparr>)))"

function inner_loop ::
  "filesys \<Rightarrow> fe list \<Rightarrow> int \<Rightarrow> nat \<Rightarrow> nat \<Rightarrow> bstate \<Rightarrow> event list ending + bstate" where
  "inner_loop fs files sz i j st =
     (if j < length files
      then if fflags st ! j \<noteq> 0 then inner_loop fs files sz i (j + 1) st
           else (case pair_step fs files sz i j st of
                   Inl e \<Rightarrow> Inl e
                 | Inr st' \<Rightarrow> inner_loop fs files sz i (j + 1) st')
      else Inr st)"
  by pat_completeness auto
termination
  by (relation "measure (\<lambda>(fs, files, sz, i, j, st). length files - j)") auto

definition end_row :: "bstate \<Rightarrow> bstate" where
  "end_row st = (case dn st of None \<Rightarrow> st | Some d \<Rightarrow> st\<lparr>retval := d # retval st, dn := None\<rparr>)"

function outer_loop ::
  "filesys \<Rightarrow> fe list \<Rightarrow> int \<Rightarrow> nat \<Rightarrow> bstate \<Rightarrow> event list ending + bstate" where
  "outer_loop fs files sz i st =
     (if i + 1 < length files
      then if fflags st ! i \<noteq> 0 then outer_loop fs files sz (i + 1) st
           else (case inner_loop fs files sz i (i + 1) st of
                   Inl e \<Rightarrow> Inl e
                 | Inr st' \<Rightarrow> outer_loop fs files sz (i + 1) (end_row st'))
      else Inr st)"
  by pat_completeness auto
termination
  by (relation "measure (\<lambda>(fs, files, sz, i, st). length files - i)") auto

text \<open>
  One bucket (source lines 221 to 364). The files are counted in \<^verbatim>\<open>cnt\<close>. With fewer than
  two files the entries are freed in a loop that reads \<^verbatim>\<open>fp->next\<close> after \<^verbatim>\<open>free(fp)\<close>
  (lines 224 and 225): for a bucket of one file this is a read from freed memory, so the
  run is \<open>Undefined\<close>; for no file the loop body is not entered. Otherwise, for a nonzero
  size, \<^verbatim>\<open>calloc\<close> gives zeroed flags and a zeroed ledger of \<^verbatim>\<open>cnt * cnt\<close> entries, the
  product being computed in \<^verbatim>\<open>int\<close>. Memory allocation itself is taken to succeed, here
  as in the index. Every bucket contributes one episode to the trace of the run: its
  size, its files, and the events of its resolution.
\<close>

definition init_bstate :: "nat \<Rightarrow> dupNode list \<Rightarrow> bstate" where
  "init_bstate cnt rv =
     \<lparr>ar = replicate (nat (int32 (int cnt * int cnt))) 0, fflags = replicate cnt 0, dn = None, retval = rv, trace = []\<rparr>"

type_synonym episode = "int \<times> fe list \<times> event list"

definition chkNode ::
  "filesys \<Rightarrow> int \<Rightarrow> fe list \<Rightarrow> dupNode list \<times> episode list
     \<Rightarrow> episode list ending + dupNode list \<times> episode list" where
  "chkNode fs sz files rt =
     (case rt of (rv, eps) \<Rightarrow>
        if INT_MAX < length files then Inl (Undefined (eps @ [(sz, files, [])]))
        else if length files < 2
        then if files = [] then Inr (rv, eps @ [(sz, files, [])])
             else Inl (Undefined (eps @ [(sz, files, [])]))
        else if sz \<noteq> 0
        then if INT_MAX < length files * length files
             then Inl (Undefined (eps @ [(sz, files, [])]))
             else (case outer_loop fs files sz 0 (init_bstate (length files) rv) of
                     Inl e \<Rightarrow> Inl (map_ending (\<lambda>tr. eps @ [(sz, files, tr)]) e)
                   | Inr st \<Rightarrow> Inr (retval st, eps @ [(sz, files, trace st)]))
        else Inr (\<lparr>dsize = 0, dfiles = files\<rparr> # rv, eps @ [(sz, files, [])]))"

fun chkForDups ::
  "filesys \<Rightarrow> Node \<Rightarrow> dupNode list \<times> episode list
     \<Rightarrow> episode list ending + dupNode list \<times> episode list" where
  "chkForDups fs Leaf rt = Inr rt"
| "chkForDups fs (Node s c fs' l r col) rt =
     (case chkForDups fs l rt of
        Inl e \<Rightarrow> Inl e
      | Inr rt1 \<Rightarrow>
          (case chkNode fs s fs' rt1 of
             Inl e \<Rightarrow> Inl e
           | Inr rt2 \<Rightarrow> chkForDups fs r rt2))"

declare scan_rows.simps [simp del] cmp_loop.simps [simp del] inner_loop.simps [simp del]
  outer_loop.simps [simp del]

section \<open>The program\<close>

text \<open>
  \<^verbatim>\<open>main\<close>: each directory argument is traversed by \<^verbatim>\<open>nftw\<close>, modelled by the list of
  callbacks it makes and the value it returns; the return value is only inspected for a
  debug message. The groups are printed after \<^verbatim>\<open>chkForDups\<close> has returned. Status 134
  stands for an abort by a failed assertion.
\<close>

fun print_dups :: "dupNode list \<Rightarrow> line list" where
  "print_dups [] = []"
| "print_dups (d # ds) = Header (dsize d) # map (\<lambda>fp. Path (name fp)) (dfiles d) @ print_dups ds"

fun run_nftw :: "Node \<Rightarrow> (call list \<times> int) list \<Rightarrow> Node option" where
  "run_nftw root [] = Some root"
| "run_nftw root ((cs, j) # dirs) =
     (case walk root cs of None \<Rightarrow> None | Some root' \<Rightarrow> run_nftw root' dirs)"

definition EX_USAGE :: int where
  "EX_USAGE = 64"

definition main :: "filesys \<Rightarrow> (call list \<times> int) list \<Rightarrow> episode list ending" where
  "main fs dirs =
     (if int (length dirs) + 1 < 1
      then Exit \<lparr>out = [], syslog = [], status = EX_USAGE, events = []\<rparr>
      else (case run_nftw Leaf dirs of
              None \<Rightarrow> Exit \<lparr>out = [], syslog = [], status = 134, events = []\<rparr>
            | Some root \<Rightarrow>
                (case chkForDups fs root ([], []) of
                   Inl e \<Rightarrow> e
                 | Inr (dups, eps) \<Rightarrow>
                     Exit \<lparr>out = print_dups dups, syslog = [], status = 0, events = eps\<rparr>)))"

lemma int32_id: "0 \<le> x \<Longrightarrow> x \<le> int INT_MAX \<Longrightarrow> int32 x = x"
  by (simp add: int32_def INT_MAX_def sint_sbintrunc' signed_take_bit_int_eq_self)

lemma idx_nat:
  assumes "i * cnt + j \<le> INT_MAX"
  shows "idx i cnt j = i * cnt + j"
proof -
  have "int i * int cnt \<le> int INT_MAX" using assms
    by (metis le_add1 of_nat_le_iff of_nat_mult order_trans)
  then have "int32 (int i * int cnt) = int i * int cnt" by (intro int32_id) simp_all
  moreover have "int32 (int i * int cnt + int j) = int i * int cnt + int j"
    using assms by (intro int32_id) (simp_all flip: of_nat_mult of_nat_add)
  ultimately show ?thesis by (simp add: idx_def flip: of_nat_mult of_nat_add)
qed

lemma syslog_fmt_plain: "CHR ''%'' \<notin> set m \<Longrightarrow> syslog_fmt m = Some m"
  by (induction m rule: syslog_fmt.induct) auto

section \<open>Claims about the run as a whole\<close>

lemma walk_append:
  "walk t (cs @ cs') = (case walk t cs of None \<Rightarrow> None | Some t' \<Rightarrow> walk t' cs')"
  by (induction t cs rule: walk.induct) (auto split: option.splits)

lemma run_nftw_walk: "run_nftw root dirs = walk root (concat (map fst dirs))"
  by (induction root dirs rule: run_nftw.induct) (auto simp: walk_append split: option.splits)

lemma chkNode_zero:
  "2 \<le> length files \<Longrightarrow> length files \<le> INT_MAX \<Longrightarrow>
   chkNode fs 0 files (rv, eps) = Inr (\<lparr>dsize = 0, dfiles = files\<rparr> # rv, eps @ [(0, files, [])])"
  by (simp add: chkNode_def)

lemma chkNode_one_file:
  "length files = 1 \<Longrightarrow> chkNode fs sz files (rv, eps) = Inl (Undefined (eps @ [(sz, files, [])]))"
  by (cases files) (simp_all add: chkNode_def)


text \<open>
  Properties of traces. \<open>failed_call\<close> tells the system calls that fail; \<open>ev_in files\<close>
  tells the events that concern positions and paths of the bucket \<open>files\<close>; \<open>diagnosed\<close>
  says that a message is what \<^verbatim>\<open>syslog\<close> makes of the operation and the path of a failed
  call of the trace. A resolution that does not return has either exited with status 1
  and such a message, or is \<open>Undefined\<close> after a failed call.
\<close>

fun failed_call :: "filesys \<Rightarrow> event \<Rightarrow> bool" where
  "failed_call fs (Open p) = open_fails fs p"
| "failed_call fs (Lseek p off) = seek_fails fs p off"
| "failed_call fs (Read p pos) = read_fails fs p pos"
| "failed_call fs _ = False"

fun ev_in :: "fe list \<Rightarrow> event \<Rightarrow> bool" where
  "ev_in files (Inferred i j) = (i < j \<and> j < length files)"
| "ev_in files (Comparing i j s) = (i < j \<and> j < length files)"
| "ev_in files (Open p) = (p \<in> name ` set files)"
| "ev_in files (Lseek p off) = (p \<in> name ` set files)"
| "ev_in files (Read p pos) = (p \<in> name ` set files)"
| "ev_in files (Close p) = (p \<in> name ` set files)"

definition diagnosed :: "filesys \<Rightarrow> event list \<Rightarrow> string \<Rightarrow> bool" where
  "diagnosed fs evs msg =
     (\<exists>p. (syslog_fmt (''Error opening '' @ p) = Some msg \<and> open_fails fs p \<and> Open p \<in> set evs) \<or>
          (\<exists>off. syslog_fmt (''Error seeking in '' @ p) = Some msg \<and> seek_fails fs p off \<and>
                 Lseek p off \<in> set evs) \<or>
          (\<exists>pos. syslog_fmt (''Error reading '' @ p) = Some msg \<and> read_fails fs p pos \<and>
                 Read p pos \<in> set evs))"

definition trace_ok :: "filesys \<Rightarrow> fe list \<Rightarrow> event list \<Rightarrow> bool" where
  "trace_ok fs files evs = (\<forall>ev \<in> set evs. ev_in files ev \<and> \<not> failed_call fs ev)"

definition abort_ok :: "filesys \<Rightarrow> fe list \<Rightarrow> event list ending \<Rightarrow> bool" where
  "abort_ok fs files e =
     (case e of
        Exit x \<Rightarrow>
          status x = 1 \<and> (\<forall>l \<in> set (out x). \<exists>p. l = ErrorOpening p) \<and>
          (\<exists>msg. syslog x = [msg] \<and> diagnosed fs (events x) msg) \<and>
          (\<forall>ev \<in> set (events x). ev_in files ev)
      | Undefined tr \<Rightarrow>
          (\<exists>ev \<in> set tr. failed_call fs ev) \<and> (\<forall>ev \<in> set tr. ev_in files ev))"

definition res_ok :: "filesys \<Rightarrow> fe list \<Rightarrow> event list ending + bstate \<Rightarrow> bool" where
  "res_ok fs files r =
     (case r of Inl e \<Rightarrow> abort_ok fs files e | Inr st \<Rightarrow> trace_ok fs files (trace st))"

lemma trace_ok_append:
  "trace_ok fs files (xs @ ys) = (trace_ok fs files xs \<and> trace_ok fs files ys)"
  by (auto simp: trace_ok_def)

lemma found_dups_trace [simp]: "trace (found_dups files sz i j st) = trace st"
  by (simp add: found_dups_def)

lemma end_row_trace [simp]: "trace (end_row st) = trace st"
  by (simp add: end_row_def split: option.splits)

lemma cmp_loop_trace:
  "i < length files \<Longrightarrow> j < length files \<Longrightarrow> trace_ok fs files (trace st) \<Longrightarrow>
   res_ok fs files (cmp_loop fs files sz i j pos st)"
proof (induction fs files sz i j pos st rule: cmp_loop.induct)
  case (1 fs files sz i j pos st)
  let ?fi = "name (files ! i)" and ?fj = "name (files ! j)"
  have ni: "?fi \<in> name ` set files" and nj: "?fj \<in> name ` set files"
    using "1.prems" by auto
  show ?case
  proof (cases "read_fails fs ?fi pos \<or> read_fails fs ?fj pos")
    case True
    then show ?thesis
      using "1.prems" ni nj
      by (subst cmp_loop.simps)
         (auto simp: res_ok_def abort_ok_def error_exit_def diagnosed_def trace_ok_def
            split: option.splits)
  next
    case False
    have ok1: "trace_ok fs files (trace st @ [Read ?fi pos, Read ?fj pos])"
      using "1.prems" ni nj False by (auto simp: trace_ok_def)
    show ?thesis
    proof (cases "length (read_chunk fs ?fi pos) \<noteq> length (read_chunk fs ?fj pos) \<or>
                  read_chunk fs ?fi pos \<noteq> read_chunk fs ?fj pos \<or>
                  length (read_chunk fs ?fi pos) = 0")
      case True
      then show ?thesis using False ok1
        by (subst cmp_loop.simps) (auto simp: res_ok_def)
    next
      case F2: False
      from F2 False have
        "cmp_loop fs files sz i j pos st =
           cmp_loop fs files sz i j (pos + length (read_chunk fs ?fi pos))
             (st\<lparr>ar := (ar st)[idx i (length files) j :=
                                ar st ! idx i (length files) j
                                  + int (length (read_chunk fs ?fi pos))],
                 trace := trace st @ [Read ?fi pos, Read ?fj pos]\<rparr>)"
        by (subst cmp_loop.simps) auto
      moreover have "res_ok fs files (cmp_loop fs files sz i j (pos + length (read_chunk fs ?fi pos))
             (st\<lparr>ar := (ar st)[idx i (length files) j :=
                                ar st ! idx i (length files) j
                                  + int (length (read_chunk fs ?fi pos))],
                 trace := trace st @ [Read ?fi pos, Read ?fj pos]\<rparr>))"
        using F2 False "1.prems" ok1 by (intro "1.IH") auto
      ultimately show ?thesis by simp
    qed
  qed
qed

lemma pair_step_trace:
  assumes "i < j" "j < length files" "trace_ok fs files (trace st)"
  shows "res_ok fs files (pair_step fs files sz i j st)"
proof -
  let ?fi = "name (files ! i)" and ?fj = "name (files ! j)"
  let ?s = "scan_rows (length files) (ar st) i j 0 0"
  have ni: "?fi \<in> name ` set files" and nj: "?fj \<in> name ` set files"
    using assms by auto
  show ?thesis
  proof (cases "?s < 0 \<or> open_fails fs ?fi \<or> open_fails fs ?fj \<or>
                (?s > 0 \<and> (seek_fails fs ?fi ?s \<or> seek_fails fs ?fj ?s))")
    case True
    then show ?thesis using assms ni nj
      by (auto simp: pair_step_def Let_def res_ok_def abort_ok_def error_exit_def diagnosed_def
          trace_ok_def split: option.splits)
  next
    case False
    let ?st1 = "st\<lparr>trace := trace st @ [Comparing i j ?s, Open ?fi, Open ?fj]
                                      @ (if ?s > 0 then [Lseek ?fi ?s, Lseek ?fj ?s] else [])\<rparr>"
    have "trace_ok fs files (trace ?st1)"
      using False assms ni nj by (auto simp: trace_ok_def)
    from cmp_loop_trace[OF _ assms(2) this, of i sz "nat ?s"] assms
    have r: "res_ok fs files (cmp_loop fs files sz i j (nat ?s) ?st1)" by simp
    have eq: "pair_step fs files sz i j st =
       (case cmp_loop fs files sz i j (nat ?s) ?st1 of Inl e \<Rightarrow> Inl e
        | Inr st' \<Rightarrow> Inr (st'\<lparr>trace := trace st' @ [Close ?fj, Close ?fi]\<rparr>))"
      using False by (auto simp: pair_step_def Let_def)
    show ?thesis using r ni nj unfolding eq
      by (auto simp: res_ok_def trace_ok_def split: sum.splits)
  qed
qed

lemma inner_loop_trace:
  "i < j \<Longrightarrow> trace_ok fs files (trace st) \<Longrightarrow> res_ok fs files (inner_loop fs files sz i j st)"
proof (induction fs files sz i j st rule: inner_loop.induct)
  case (1 fs files sz i j st)
  show ?case
  proof (cases "j < length files")
    case False
    then show ?thesis using "1.prems" by (subst inner_loop.simps) (simp add: res_ok_def)
  next
    case True
    show ?thesis
    proof (cases "fflags st ! j \<noteq> 0")
      case T2: True
      then show ?thesis using True "1.IH"(1) "1.prems"
        by (subst inner_loop.simps) simp
    next
      case False
      from pair_step_trace[OF "1.prems"(1) True "1.prems"(2), of sz]
      have r: "res_ok fs files (pair_step fs files sz i j st)" .
      show ?thesis
      proof (cases "pair_step fs files sz i j st")
        case (Inl e)
        then show ?thesis using r True False
          by (subst inner_loop.simps) (simp add: res_ok_def)
      next
        case (Inr st')
        then have "trace_ok fs files (trace st')" using r by (simp add: res_ok_def)
        from "1.IH"(2)[OF True _ Inr _ this] False "1.prems"(1)
        have "res_ok fs files (inner_loop fs files sz i (j + 1) st')" by simp
        then show ?thesis using Inr True False by (subst inner_loop.simps) simp
      qed
    qed
  qed
qed

lemma outer_loop_trace:
  "trace_ok fs files (trace st) \<Longrightarrow> res_ok fs files (outer_loop fs files sz i st)"
proof (induction fs files sz i st rule: outer_loop.induct)
  case (1 fs files sz i st)
  show ?case
  proof (cases "i + 1 < length files")
    case False
    then show ?thesis using "1.prems" by (subst outer_loop.simps) (simp add: res_ok_def)
  next
    case True
    show ?thesis
    proof (cases "fflags st ! i \<noteq> 0")
      case T2: True
      then show ?thesis using True "1.IH"(1) "1.prems"
        by (subst outer_loop.simps) simp
    next
      case False
      from inner_loop_trace[OF _ "1.prems", of i "i + 1" sz]
      have r: "res_ok fs files (inner_loop fs files sz i (i + 1) st)" by simp
      show ?thesis
      proof (cases "inner_loop fs files sz i (i + 1) st")
        case (Inl e)
        then show ?thesis using r True False
          by (subst outer_loop.simps) (simp add: res_ok_def)
      next
        case (Inr st')
        then have "trace_ok fs files (trace (end_row st'))" using r by (simp add: res_ok_def)
        from "1.IH"(2)[OF True _ Inr this] False
        have "res_ok fs files (outer_loop fs files sz (i + 1) (end_row st'))" by simp
        then show ?thesis using Inr True False by (subst outer_loop.simps) simp
      qed
    qed
  qed
qed

definition all_events :: "episode list \<Rightarrow> event list" where
  "all_events eps = concat (map (\<lambda>(sz, files, evs). evs) eps)"

definition eps_ok :: "filesys \<Rightarrow> (int \<times> fe list) set \<Rightarrow> episode list \<Rightarrow> bool" where
  "eps_ok fs B eps = (\<forall>(sz, files, evs) \<in> set eps. (sz, files) \<in> B \<and> trace_ok fs files evs)"

definition eps_in :: "(int \<times> fe list) set \<Rightarrow> episode list \<Rightarrow> bool" where
  "eps_in B eps = (\<forall>(sz, files, evs) \<in> set eps. (sz, files) \<in> B \<and> (\<forall>ev \<in> set evs. ev_in files ev))"

text \<open>
  \<open>defined_bucket sz files\<close>: the bucket is one on which \<open>chkNode\<close> does not end as
  \<open>Undefined\<close> by itself: not a single file, and counts that fit \<^verbatim>\<open>int\<close>.
\<close>

definition defined_bucket :: "int \<Rightarrow> fe list \<Rightarrow> bool" where
  "defined_bucket sz files =
     (length files \<noteq> 1 \<and> length files \<le> INT_MAX \<and>
      (sz \<noteq> 0 \<longrightarrow> length files * length files \<le> INT_MAX))"

definition run_abort_ok :: "filesys \<Rightarrow> (int \<times> fe list) set \<Rightarrow> episode list ending \<Rightarrow> bool" where
  "run_abort_ok fs B e =
     (case e of
        Exit x \<Rightarrow>
          status x = 1 \<and> (\<forall>l \<in> set (out x). \<exists>p. l = ErrorOpening p) \<and>
          (\<exists>msg. syslog x = [msg] \<and> diagnosed fs (all_events (events x)) msg) \<and>
          eps_in B (events x)
      | Undefined eps \<Rightarrow>
          eps_in B eps \<and>
          ((\<exists>ev \<in> set (all_events eps). failed_call fs ev) \<or>
           (\<exists>(sz, files) \<in> B. \<not> defined_bucket sz files)))"

definition run_res_ok ::
  "filesys \<Rightarrow> (int \<times> fe list) set \<Rightarrow> episode list ending + dupNode list \<times> episode list \<Rightarrow> bool" where
  "run_res_ok fs B r =
     (case r of Inl e \<Rightarrow> run_abort_ok fs B e | Inr rt \<Rightarrow> eps_ok fs B (snd rt))"

lemma eps_ok_in: "eps_ok fs B eps \<Longrightarrow> eps_in B eps"
  by (auto simp: eps_ok_def eps_in_def trace_ok_def)

lemma eps_ok_no_failed: "eps_ok fs B eps \<Longrightarrow> \<not> list_ex (failed_call fs) (all_events eps)"
  by (fastforce simp: eps_ok_def all_events_def trace_ok_def list_ex_iff)

lemma diagnosed_mono: "diagnosed fs evs msg \<Longrightarrow> set evs \<subseteq> set evs' \<Longrightarrow> diagnosed fs evs' msg"
  unfolding diagnosed_def by blast

lemma init_trace_ok: "trace_ok fs files (trace (init_bstate n rv))"
  by (simp add: init_bstate_def trace_ok_def)

lemma eps_in_snoc: "eps_in B eps \<Longrightarrow> (sz, files) \<in> B \<Longrightarrow> \<forall>ev \<in> set tr. ev_in files ev \<Longrightarrow>
  eps_in B (eps @ [(sz, files, tr)])"
  by (auto simp: eps_in_def)

lemma chkNode_trace:
  assumes "(sz, files) \<in> B" "eps_ok fs B eps"
  shows "run_res_ok fs B (chkNode fs sz files (rv, eps))"
proof (cases "defined_bucket sz files")
  case False
  have und: "run_abort_ok fs B (Undefined (eps @ [(sz, files, [])]))"
    using False assms eps_in_snoc[OF eps_ok_in[OF assms(2)] assms(1), of "[]"]
    by (auto simp: run_abort_ok_def)
  have "chkNode fs sz files (rv, eps) = Inl (Undefined (eps @ [(sz, files, [])]))"
    using False by (cases files) (auto simp: chkNode_def defined_bucket_def)
  with und show ?thesis by (simp add: run_res_ok_def)
next
  case True
  show ?thesis
  proof (cases "length files < 2 \<or> sz = 0")
    case T2: True
    from True have d: "\<not> INT_MAX < length files" "length files \<noteq> 1"
      by (auto simp: defined_bucket_def)
    show ?thesis
    proof (cases "files = []")
      case True
      then show ?thesis using assms
        by (auto simp: chkNode_def run_res_ok_def eps_ok_def trace_ok_def)
    next
      case False
      with d(2) have "\<not> length files < 2" by (cases files) auto
      with T2 have "sz = 0" by simp
      then show ?thesis using assms d \<open>\<not> length files < 2\<close>
        by (auto simp: chkNode_def run_res_ok_def eps_ok_def trace_ok_def)
    qed
  next
    case False
    with True have g: "\<not> INT_MAX < length files" "\<not> length files < 2" "sz \<noteq> 0"
      "\<not> INT_MAX < length files * length files" by (auto simp: defined_bucket_def)
    have r: "res_ok fs files (outer_loop fs files sz 0 (init_bstate (length files) rv))"
      by (rule outer_loop_trace[OF init_trace_ok])
    show ?thesis
    proof (cases "outer_loop fs files sz 0 (init_bstate (length files) rv)")
      case (Inl e)
      with r have a: "abort_ok fs files e" by (simp add: res_ok_def)
      have c: "chkNode fs sz files (rv, eps) = Inl (map_ending (\<lambda>tr. eps @ [(sz, files, tr)]) e)"
        using Inl g by (simp add: chkNode_def)
      show ?thesis
      proof (cases e)
        case (Exit x)
        with a obtain msg where m: "syslog x = [msg]" "diagnosed fs (events x) msg"
          and st: "status x = 1" "\<forall>l \<in> set (out x). \<exists>p. l = ErrorOpening p"
          and ev: "\<forall>ev \<in> set (events x). ev_in files ev"
          by (auto simp: abort_ok_def)
        have "diagnosed fs (all_events (eps @ [(sz, files, events x)])) msg"
          by (rule diagnosed_mono[OF m(2)]) (auto simp: all_events_def)
        then show ?thesis unfolding c Exit
          using m(1) st eps_in_snoc[OF eps_ok_in[OF assms(2)] assms(1) ev]
          by (auto simp: run_res_ok_def run_abort_ok_def)
      next
        case (Undefined tr)
        with a have f: "\<exists>ev \<in> set tr. failed_call fs ev" and ev: "\<forall>ev \<in> set tr. ev_in files ev"
          by (auto simp: abort_ok_def)
        from f have "\<exists>ev \<in> set (all_events (eps @ [(sz, files, tr)])). failed_call fs ev"
          by (auto simp: all_events_def)
        then show ?thesis unfolding c Undefined
          using eps_in_snoc[OF eps_ok_in[OF assms(2)] assms(1) ev]
          by (auto simp: run_res_ok_def run_abort_ok_def)
      qed
    next
      case (Inr st)
      with r have "trace_ok fs files (trace st)" by (simp add: res_ok_def)
      then show ?thesis using Inr g assms
        by (auto simp: chkNode_def run_res_ok_def eps_ok_def)
    qed
  qed
qed

lemma chkForDups_trace:
  "set (buckets t) \<subseteq> B \<Longrightarrow> eps_ok fs B (snd rt) \<Longrightarrow> run_res_ok fs B (chkForDups fs t rt)"
proof (induction t arbitrary: rt)
  case Leaf
  then show ?case by (simp add: run_res_ok_def)
next
  case (Node s c files l r col)
  have bl: "set (buckets l) \<subseteq> B" and br: "set (buckets r) \<subseteq> B" and bn: "(s, files) \<in> B"
    using Node.prems(1) by auto
  from Node.IH(1)[OF bl Node.prems(2)] have r1: "run_res_ok fs B (chkForDups fs l rt)" .
  show ?case
  proof (cases "chkForDups fs l rt")
    case (Inl e)
    with r1 show ?thesis by simp
  next
    case (Inr rt1)
    obtain rv1 eps1 where rt1: "rt1 = (rv1, eps1)" by (cases rt1)
    from r1 Inr rt1 have "eps_ok fs B eps1" by (simp add: run_res_ok_def)
    from chkNode_trace[OF bn this, of rv1] have r2: "run_res_ok fs B (chkNode fs s files rt1)"
      by (simp add: rt1)
    show ?thesis
    proof (cases "chkNode fs s files rt1")
      case (Inl e)
      with r2 Inr show ?thesis by simp
    next
      case Inr2: (Inr rt2)
      with r2 have "eps_ok fs B (snd rt2)" by (simp add: run_res_ok_def)
      from Node.IH(2)[OF br this] Inr Inr2 show ?thesis by simp
    qed
  qed
qed

lemma main_cases:
  "\<exists>root. walk Leaf (concat (map fst dirs)) = Some root \<and>
     buckets root = ins_calls [] (concat (map fst dirs)) \<and>
     main fs dirs = (case chkForDups fs root ([], []) of
                       Inl e \<Rightarrow> e
                     | Inr (dups, eps) \<Rightarrow>
                         Exit \<lparr>out = print_dups dups, syslog = [], status = 0, events = eps\<rparr>)"
proof -
  from walk_ok[OF root_ok_Leaf, of "concat (map fst dirs)"] obtain root where
    w: "walk Leaf (concat (map fst dirs)) = Some root"
    and b: "buckets root = ins_calls [] (concat (map fst dirs))" by auto
  then have "run_nftw Leaf dirs = Some root" by (simp add: run_nftw_walk)
  then show ?thesis using w b by (simp add: main_def)
qed

lemma main_run_ok:
  obtains root where "walk Leaf (concat (map fst dirs)) = Some root"
    "buckets root = ins_calls [] (concat (map fst dirs))"
    "(\<exists>dups eps. chkForDups fs root ([], []) = Inr (dups, eps) \<and>
        main fs dirs = Exit \<lparr>out = print_dups dups, syslog = [], status = 0, events = eps\<rparr> \<and>
        eps_ok fs (set (buckets root)) eps) \<or>
     run_abort_ok fs (set (buckets root)) (main fs dirs)"
proof -
  from main_cases[of dirs fs] obtain root where
    w: "walk Leaf (concat (map fst dirs)) = Some root"
    and b: "buckets root = ins_calls [] (concat (map fst dirs))"
    and m: "main fs dirs = (case chkForDups fs root ([], []) of
                       Inl e \<Rightarrow> e
                     | Inr (dups, eps) \<Rightarrow>
                         Exit \<lparr>out = print_dups dups, syslog = [], status = 0, events = eps\<rparr>)"
    by blast
  have "run_res_ok fs (set (buckets root)) (chkForDups fs root ([], []))"
    by (rule chkForDups_trace) (simp_all add: eps_ok_def)
  then have "(\<exists>dups eps. chkForDups fs root ([], []) = Inr (dups, eps) \<and>
        main fs dirs = Exit \<lparr>out = print_dups dups, syslog = [], status = 0, events = eps\<rparr> \<and>
        eps_ok fs (set (buckets root)) eps) \<or>
     run_abort_ok fs (set (buckets root)) (main fs dirs)"
    unfolding m by (auto simp: run_res_ok_def split: sum.splits)
  with w b that show ?thesis by blast
qed

lemma io_failure_ends_run:
  assumes "\<exists>ev \<in> set (all_events (ending_events (main fs dirs))). failed_call fs ev"
  shows "(\<exists>x. main fs dirs = Exit x \<and> status x = 1 \<and>
              (\<forall>l \<in> set (out x). \<exists>p. l = ErrorOpening p) \<and>
              (\<exists>msg. syslog x = [msg] \<and> diagnosed fs (all_events (events x)) msg)) \<or>
         (\<exists>eps. main fs dirs = Undefined eps)"
proof -
  obtain root where
    "(\<exists>dups eps. chkForDups fs root ([], []) = Inr (dups, eps) \<and>
        main fs dirs = Exit \<lparr>out = print_dups dups, syslog = [], status = 0, events = eps\<rparr> \<and>
        eps_ok fs (set (buckets root)) eps) \<or>
     run_abort_ok fs (set (buckets root)) (main fs dirs)"
    by (rule main_run_ok)
  then show ?thesis
  proof
    assume "\<exists>dups eps. chkForDups fs root ([], []) = Inr (dups, eps) \<and>
        main fs dirs = Exit \<lparr>out = print_dups dups, syslog = [], status = 0, events = eps\<rparr> \<and>
        eps_ok fs (set (buckets root)) eps"
    then obtain dups eps where
      m: "main fs dirs = Exit \<lparr>out = print_dups dups, syslog = [], status = 0, events = eps\<rparr>"
      and ok: "eps_ok fs (set (buckets root)) eps" by blast
    from eps_ok_no_failed[OF ok] assms show ?thesis by (simp add: m list_ex_iff)
  next
    assume "run_abort_ok fs (set (buckets root)) (main fs dirs)"
    then show ?thesis by (cases "main fs dirs") (auto simp: run_abort_ok_def)
  qed
qed

lemma spec_bucket_from_calls:
  "f \<in> set (spec_bucket s acc cs) \<Longrightarrow>
   f \<in> set acc \<or> (\<exists>nm st. (nm, st, FTW_F) \<in> set cs \<and> st_size st = s \<and> f = newFileNode nm st)"
proof (induction s acc cs rule: spec_bucket.induct)
  case (1 s acc)
  then show ?case by simp
next
  case (2 s acc nm st flag cs)
  from "2.IH"[OF "2.prems"[simplified]] show ?case
    by (auto simp: spec_add_file_def split: if_splits)
qed

lemma buckets_from_calls:
  assumes "(s, fs') \<in> set (ins_calls [] cs)" "f \<in> set fs'"
  shows "\<exists>nm st. (nm, st, FTW_F) \<in> set cs \<and> st_size st = s \<and> f = newFileNode nm st"
proof -
  have srt: "sorted_wrt (<) (map fst (ins_calls [] cs))" by (rule sorted_ins_calls) simp
  from assms(1) in_sorted_buckets[OF srt, of s fs'] map_of_ins_calls[of cs s]
  have "fs' = rev (spec_bucket s [] cs)" by (simp split: if_splits)
  with assms(2) spec_bucket_from_calls[of f s "[]" cs] show ?thesis by simp
qed

text \<open>
  C8. Every episode of the run, however the run ends, belongs to one bucket: its events
  compare positions of that bucket and touch paths of its files only, and every file of
  the bucket was inserted by a callback with the bucket's size. Files inserted with
  different sizes therefore never meet in a comparison.
\<close>

theorem size_partitioning:
  assumes "(sz, files, evs) \<in> set (ending_events (main fs dirs))"
  shows "(\<forall>ev \<in> set evs. ev_in files ev) \<and>
         (\<forall>f \<in> set files. \<exists>nm st. (nm, st, FTW_F) \<in> set (concat (map fst dirs)) \<and>
                                  st_size st = sz \<and> f = newFileNode nm st)"
proof -
  obtain root where
    b: "buckets root = ins_calls [] (concat (map fst dirs))" and
    "(\<exists>dups eps. chkForDups fs root ([], []) = Inr (dups, eps) \<and>
        main fs dirs = Exit \<lparr>out = print_dups dups, syslog = [], status = 0, events = eps\<rparr> \<and>
        eps_ok fs (set (buckets root)) eps) \<or>
     run_abort_ok fs (set (buckets root)) (main fs dirs)"
    by (rule main_run_ok)
  then have "eps_in (set (buckets root)) (ending_events (main fs dirs))"
    using eps_ok_in by (cases "main fs dirs") (auto simp: run_abort_ok_def)
  with assms have in_b: "(sz, files) \<in> set (buckets root)" and ev: "\<forall>ev \<in> set evs. ev_in files ev"
    by (auto simp: eps_in_def)
  from in_b b buckets_from_calls[of sz files "concat (map fst dirs)"] ev
  show ?thesis by auto
qed

text \<open>
  Concrete runs: a directory \<open>a\<close>, \<open>c\<close> whose traversal returns \<open>-1\<close> and a directory
  \<open>b\<close>; \<open>a\<close> and \<open>b\<close> hold the same three bytes and \<open>c\<close> differs in its last byte. In
  \<open>fs_bad\<close> the file \<open>c\<close> cannot be opened.
\<close>

lemmas run_simps = main_def visit_def insertRoot_def insertR.simps newFileNode_def chkNode_def
  outer_loop.simps inner_loop.simps pair_step_def scan_rows.simps cmp_loop.simps end_row_def
  init_bstate_def read_chunk_def BUFSIZE_def found_dups_def addDupNode_def Let_def error_exit_def
  all_events_def INT_MAX_def idx_def int32_def

definition fs_ex :: filesys where
  "fs_ex = \<lparr>content = (\<lambda>p. if p = ''a'' then ''xyz'' else if p = ''b'' then ''xyz''
                            else if p = ''c'' then ''xyq'' else ''xy''),
            open_fails = (\<lambda>p. False), seek_fails = (\<lambda>p off. False),
            read_fails = (\<lambda>p pos. False)\<rparr>"

definition dirs_ex :: "(call list \<times> int) list" where
  "dirs_ex = [([(''a'', \<lparr>st_size = 3, st_dev = 1, st_ino = 1\<rparr>, FTW_F),
                (''c'', \<lparr>st_size = 3, st_dev = 1, st_ino = 3\<rparr>, FTW_F)], -1),
              ([(''b'', \<lparr>st_size = 3, st_dev = 1, st_ino = 2\<rparr>, FTW_F)], 0)]"

definition bucket_ex :: "fe list" where
  "bucket_ex = [\<lparr>name = ''b'', dev = 1, inode = 2\<rparr>, \<lparr>name = ''c'', dev = 1, inode = 3\<rparr>,
                \<lparr>name = ''a'', dev = 1, inode = 1\<rparr>]"


definition fs_bad :: filesys where
  "fs_bad = fs_ex\<lparr>open_fails := (\<lambda>p. p = ''c'')\<rparr>"

lemma main_bad:
  "main fs_bad dirs_ex =
     Exit \<lparr>out = [], syslog = [''Error opening c''], status = 1,
      events = [(3, bucket_ex, [Comparing 0 1 0, Open ''b'', Open ''c''])]\<rparr>"
  by (simp add: run_simps fs_bad_def fs_ex_def dirs_ex_def bucket_ex_def)

theorem size_partitioning_witness:
  "(3, bucket_ex, [Comparing 0 1 0, Open ''b'', Open ''c''])
     \<in> set (ending_events (main fs_bad dirs_ex)) \<and>
   ev_in bucket_ex (Comparing 0 1 0) \<and>
   (''c'', \<lparr>st_size = 3, st_dev = 1, st_ino = 3\<rparr>, FTW_F) \<in> set (concat (map fst dirs_ex)) \<and>
   bucket_ex ! 1 = newFileNode ''c'' \<lparr>st_size = 3, st_dev = 1, st_ino = 3\<rparr>"
  using size_partitioning[of 3 bucket_ex "[Comparing 0 1 0, Open ''b'', Open ''c'']" fs_bad dirs_ex]
  unfolding main_bad
  by (simp add: bucket_ex_def dirs_ex_def newFileNode_def)


text \<open>
  A run with a bucket of one file: \<open>a\<close> and \<open>b\<close> hold the same three bytes and \<open>d\<close> is the
  only file of two bytes.
\<close>

definition dirs_one :: "(call list \<times> int) list" where
  "dirs_one = [([(''a'', \<lparr>st_size = 3, st_dev = 1, st_ino = 1\<rparr>, FTW_F),
                 (''b'', \<lparr>st_size = 3, st_dev = 1, st_ino = 2\<rparr>, FTW_F),
                 (''d'', \<lparr>st_size = 2, st_dev = 1, st_ino = 4\<rparr>, FTW_F)], 0)]"

text \<open>
  C6. The claim has two parts. For a bucket of size 0 with two or more files the
  resolver adds one group of size 0 made of all its files, without any event
  (\<open>chkNode_zero\<close> above; \<open>chkForDups_zero_bucket\<close> below says so for the walk of the
  whole index). For a bucket with fewer than two files the claim says that nothing is
  emitted and the run goes on; the code instead reads freed memory in every bucket of one
  file. In the run below the files \<open>a\<close> and \<open>b\<close> are identical and \<open>d\<close> is alone in its
  bucket, which is resolved first: the run is \<open>Undefined\<close> there, before the bucket of \<open>a\<close>
  and \<open>b\<close> is looked at.
\<close>

theorem one_file_bucket_undefined:
  "run_nftw Leaf dirs_one
     = Some (Node 3 1 [\<lparr>name = ''b'', dev = 1, inode = 2\<rparr>, \<lparr>name = ''a'', dev = 1, inode = 1\<rparr>]
               (Node 2 1 [\<lparr>name = ''d'', dev = 1, inode = 4\<rparr>] Leaf Leaf 1) Leaf 0) \<and>
   main fs_ex dirs_one = Undefined [(2, [\<lparr>name = ''d'', dev = 1, inode = 4\<rparr>], [])]"
  by (simp add: run_simps fs_ex_def dirs_one_def)

text \<open>
  Runs in which a file whose name holds a \<open>%\<close> cannot be opened. It is reported first by
  the traversal, so it is the second file of its bucket.
\<close>

definition fs_pct :: filesys where
  "fs_pct = \<lparr>content = (\<lambda>p. ''xyz''), open_fails = (\<lambda>p. p = ''50%%'' \<or> p = ''50%done''),
             seek_fails = (\<lambda>p off. False), read_fails = (\<lambda>p pos. False)\<rparr>"

definition dirs_pct :: "string \<Rightarrow> (call list \<times> int) list" where
  "dirs_pct p = [([(p, \<lparr>st_size = 3, st_dev = 1, st_ino = 2\<rparr>, FTW_F),
                   (''a'', \<lparr>st_size = 3, st_dev = 1, st_ino = 1\<rparr>, FTW_F)], 0)]"

text \<open>
  C9. The claim says that a failed \<^verbatim>\<open>open\<close>, \<^verbatim>\<open>lseek\<close> or \<^verbatim>\<open>read\<close> ends the process with a
  diagnostic naming the failing path and a nonzero status. \<^verbatim>\<open>error_exit\<close> builds that
  message but hands it to \<^verbatim>\<open>syslog\<close> as the format string. In the runs below the second
  file of the pair cannot be opened, so \<^verbatim>\<open>error_exit\<close> is the only report. For the path
  \<open>50%%\<close> the logged message names \<open>50%\<close>, which is not the path; for the path \<open>50%done\<close>
  the conversion \<open>%d\<close> takes an argument that was never passed and the run is
  \<open>Undefined\<close>. For paths without \<open>%\<close> the claim holds (\<open>io_failure_ends_run\<close> with
  \<open>syslog_fmt_plain\<close>).
\<close>

theorem io_failure_format_string:
  "main fs_pct (dirs_pct ''50%%'')
     = Exit \<lparr>out = [], syslog = [''Error opening 50%''], status = 1,
             events = [(3, [\<lparr>name = ''a'', dev = 1, inode = 1\<rparr>,
                            \<lparr>name = ''50%%'', dev = 1, inode = 2\<rparr>],
                        [Comparing 0 1 0, Open ''a'', Open ''50%%''])]\<rparr> \<and>
   main fs_pct (dirs_pct ''50%done'')
     = Undefined [(3, [\<lparr>name = ''a'', dev = 1, inode = 1\<rparr>,
                       \<lparr>name = ''50%done'', dev = 1, inode = 2\<rparr>],
                   [Comparing 0 1 0, Open ''a'', Open ''50%done''])]"
  by (simp add: run_simps fs_pct_def dirs_pct_def)

section \<open>The ledger and the skip-ahead inference\<close>

text \<open>
  \<open>cell files a p q\<close> is the ledger entry \<^verbatim>\<open>ar[p*cnt + q]\<close>; \<open>colmax files a i n\<close> is the
  largest entry of column \<open>i\<close> in the rows below \<open>n\<close> (at least 0), which is what the scan
  returns when no row differs; \<open>cont fs files k\<close> is the content of the file at position
  \<open>k\<close> of the bucket.
\<close>

definition cell :: "fe list \<Rightarrow> int list \<Rightarrow> nat \<Rightarrow> nat \<Rightarrow> int" where
  "cell files a p q = a ! idx p (length files) q"

fun colmax :: "fe list \<Rightarrow> int list \<Rightarrow> nat \<Rightarrow> nat \<Rightarrow> int" where
  "colmax files a i 0 = 0"
| "colmax files a i (Suc n) = max (colmax files a i n) (cell files a n i)"

definition cont :: "filesys \<Rightarrow> fe list \<Rightarrow> nat \<Rightarrow> string" where
  "cont fs files k = content fs (name (files ! k))"

lemma BUFSIZE_pos: "0 < BUFSIZE"
  by (simp add: BUFSIZE_def)

lemma colmax_nonneg: "0 \<le> colmax files a i n"
  by (induction n) auto

lemma colmax_ge: "p < n \<Longrightarrow> cell files a p i \<le> colmax files a i n"
  by (induction n) (auto simp: less_Suc_eq)

lemma colmax_attained:
  "0 < colmax files a i n \<Longrightarrow> \<exists>p<n. cell files a p i = colmax files a i n"
  by (induction n) (auto simp: less_Suc_eq max_def split: if_splits)

lemma colmax_cong:
  "(\<And>p. p < n \<Longrightarrow> cell files a p i = cell files b p i) \<Longrightarrow>
   colmax files a i n = colmax files b i n"
  by (induction n) auto

lemma scan_rows_neg:
  "0 \<le> m \<Longrightarrow>
   (scan_rows (length files) a i j pr m < 0) \<longleftrightarrow>
     (\<exists>p. pr \<le> p \<and> p < i \<and> cell files a p i \<noteq> cell files a p j)"
proof (induction "length files" a i j pr m rule: scan_rows.induct)
  case (1 a i j pr m)
  show ?case
  proof (cases "pr < i")
    case False
    then show ?thesis using "1.prems" "1.hyps" by (subst scan_rows.simps) auto
  next
    case True
    show ?thesis
    proof (cases "cell files a pr i \<noteq> cell files a pr j")
      case T2: True
      then show ?thesis using True by (subst scan_rows.simps) (auto simp: cell_def)
    next
      case False
      have "(scan_rows (length files) a i j (pr + 1)
               (if a ! idx pr (length files) i > m then a ! idx pr (length files) i else m) < 0)
            = (\<exists>p. pr + 1 \<le> p \<and> p < i \<and> cell files a p i \<noteq> cell files a p j)"
        using True False "1.prems" by (intro "1.hyps") (auto simp: cell_def)
      moreover have "(\<exists>p. pr + 1 \<le> p \<and> p < i \<and> cell files a p i \<noteq> cell files a p j)
            = (\<exists>p. pr \<le> p \<and> p < i \<and> cell files a p i \<noteq> cell files a p j)"
        using False by (metis Suc_eq_plus1 Suc_leD Suc_leI le_neq_implies_less)
      ultimately show ?thesis using True False
        by (subst scan_rows.simps) (simp add: cell_def)
    qed
  qed
qed

lemma scan_rows_val:
  "\<forall>p. pr \<le> p \<and> p < i \<longrightarrow> cell files a p i = cell files a p j \<Longrightarrow> pr \<le> i \<Longrightarrow>
   m = colmax files a i pr \<Longrightarrow>
   scan_rows (length files) a i j pr m = colmax files a i i"
proof (induction "length files" a i j pr m rule: scan_rows.induct)
  case (1 a i j pr m)
  show ?case
  proof (cases "pr < i")
    case False
    then show ?thesis using "1.prems" by (subst scan_rows.simps) auto
  next
    case True
    have eq: "cell files a pr i = cell files a pr j" using "1.prems"(1) True by auto
    have "scan_rows (length files) a i j (pr + 1)
               (if a ! idx pr (length files) i > m then a ! idx pr (length files) i else m)
          = colmax files a i i"
      using True eq "1.prems" by (intro "1.hyps") (auto simp: cell_def max_def)
    then show ?thesis using True eq by (subst scan_rows.simps) (simp add: cell_def)
  qed
qed

lemma take_chunk_split:
  "take (n + m) (drop pos xs) = take n (drop pos xs) @ take m (drop (pos + n) xs)"
  by (metis take_add drop_drop add.commute)

lemma drop_chunk_split: "drop pos xs = take n (drop pos xs) @ drop (pos + n) xs"
  by (metis append_take_drop_id drop_drop add.commute)

lemma take_length_take: "take (length (take n xs)) xs = take n xs"
  by (simp add: min_def)

lemma found_dups_upd [simp]:
  "fflags (found_dups files sz i j (st\<lparr>ar := a, trace := t\<rparr>)) = fflags (found_dups files sz i j st)"
  "dn (found_dups files sz i j (st\<lparr>ar := a, trace := t\<rparr>)) = dn (found_dups files sz i j st)"
  "ar (found_dups files sz i j st) = ar st"
  "retval (found_dups files sz i j st) = retval st"
  by (simp_all add: found_dups_def)

lemma cmp_loop_spec:
  "cmp_loop fs files sz i j pos st = Inr st' \<Longrightarrow> idx i (length files) j < length (ar st) \<Longrightarrow>
   \<exists>m. ar st' = (ar st)[idx i (length files) j := ar st ! idx i (length files) j + int m] \<and>
       take m (drop pos (cont fs files i)) = take m (drop pos (cont fs files j)) \<and>
       retval st' = retval st \<and>
       (\<exists>rs. trace st' = trace st @ rs \<and> (\<forall>e \<in> set rs. \<exists>p k. e = Read p k)) \<and>
       ((drop pos (cont fs files i) = drop pos (cont fs files j) \<and>
         m = length (drop pos (cont fs files i)) \<and>
         fflags st' = fflags (found_dups files sz i j st) \<and>
         dn st' = dn (found_dups files sz i j st)) \<or>
        (BUFSIZE dvd m \<and>
         read_chunk fs (name (files ! i)) (pos + m) \<noteq> read_chunk fs (name (files ! j)) (pos + m) \<and>
         fflags st' = fflags st \<and> dn st' = dn st))"
proof (induction fs files sz i j pos st arbitrary: st' rule: cmp_loop.induct)
  case (1 fs files sz i j pos st)
  let ?fi = "name (files ! i)" and ?fj = "name (files ! j)"
  let ?ci = "read_chunk fs ?fi pos" and ?cj = "read_chunk fs ?fj pos"
  let ?k = "idx i (length files) j"
  let ?tr = "trace st @ [Read ?fi pos, Read ?fj pos]"
  have nofail: "\<not> (read_fails fs ?fi pos \<or> read_fails fs ?fj pos)"
    using "1.prems"(1) by (subst (asm) cmp_loop.simps) (auto split: if_splits)
  show ?case
  proof (cases "?ci \<noteq> ?cj")
    case True
    then have "st' = st\<lparr>trace := ?tr\<rparr>"
      using "1.prems"(1) nofail by (subst (asm) cmp_loop.simps) (auto split: if_splits)
    then show ?thesis using True
      by (intro exI[of _ 0]) (auto)
  next
    case False
    then have eq: "?ci = ?cj" by simp
    let ?st2 = "st\<lparr>ar := (ar st)[?k := ar st ! ?k + int (length ?ci)], trace := ?tr\<rparr>"
    show ?thesis
    proof (cases "length ?ci = 0")
      case True
      then have s': "st' = found_dups files sz i j ?st2"
        using "1.prems"(1) nofail eq by (subst (asm) cmp_loop.simps) (auto split: if_splits)
      have "drop pos (cont fs files i) = []" "drop pos (cont fs files j) = []"
        using True eq BUFSIZE_pos by (auto simp: read_chunk_def cont_def)
      then show ?thesis using s' True
        by (intro exI[of _ 0]) (auto simp: found_dups_def)
    next
      case n0: False
      let ?n = "length ?ci"
      have rec: "cmp_loop fs files sz i j (pos + ?n) ?st2 = Inr st'"
        using "1.prems"(1) nofail eq n0 by (subst (asm) cmp_loop.simps) (auto split: if_splits)
      have len2: "?k < length (ar ?st2)" using "1.prems"(2) by simp
      from "1.IH"[OF nofail _ _ n0 rec len2] eq obtain m where
        a: "ar st' = (ar ?st2)[?k := ar ?st2 ! ?k + int m]"
        and t: "take m (drop (pos + ?n) (cont fs files i)) = take m (drop (pos + ?n) (cont fs files j))"
        and rv: "retval st' = retval ?st2"
        and tr: "\<exists>rs. trace st' = trace ?st2 @ rs \<and> (\<forall>e \<in> set rs. \<exists>p k. e = Read p k)"
        and d: "(drop (pos + ?n) (cont fs files i) = drop (pos + ?n) (cont fs files j) \<and>
                 m = length (drop (pos + ?n) (cont fs files i)) \<and>
                 fflags st' = fflags (found_dups files sz i j ?st2) \<and>
                 dn st' = dn (found_dups files sz i j ?st2)) \<or>
                (BUFSIZE dvd m \<and>
                 read_chunk fs ?fi (pos + ?n + m) \<noteq> read_chunk fs ?fj (pos + ?n + m) \<and>
                 fflags st' = fflags ?st2 \<and> dn st' = dn ?st2)"
        by auto
      have ti: "take ?n (drop pos (cont fs files i)) = ?ci"
        by (simp add: read_chunk_def cont_def min_def)
      have tj: "take ?n (drop pos (cont fs files j)) = ?cj"
        unfolding eq by (simp add: read_chunk_def cont_def min_def)
      have a': "ar st' = (ar st)[?k := ar st ! ?k + int (?n + m)]"
        using a "1.prems"(2) by (simp add: add.assoc)
      have t': "take (?n + m) (drop pos (cont fs files i)) = take (?n + m) (drop pos (cont fs files j))"
        unfolding take_chunk_split using t ti tj eq by simp
      have tr': "\<exists>rs. trace st' = trace st @ rs \<and> (\<forall>e \<in> set rs. \<exists>p k. e = Read p k)"
        using tr by auto
      have d': "(drop pos (cont fs files i) = drop pos (cont fs files j) \<and>
                 ?n + m = length (drop pos (cont fs files i)) \<and>
                 fflags st' = fflags (found_dups files sz i j st) \<and>
                 dn st' = dn (found_dups files sz i j st)) \<or>
                (BUFSIZE dvd (?n + m) \<and>
                 read_chunk fs ?fi (pos + (?n + m)) \<noteq> read_chunk fs ?fj (pos + (?n + m)) \<and>
                 fflags st' = fflags st \<and> dn st' = dn st)"
        using d
      proof
        assume h: "drop (pos + ?n) (cont fs files i) = drop (pos + ?n) (cont fs files j) \<and>
                 m = length (drop (pos + ?n) (cont fs files i)) \<and>
                 fflags st' = fflags (found_dups files sz i j ?st2) \<and>
                 dn st' = dn (found_dups files sz i j ?st2)"
        have "drop pos (cont fs files i)
                = take ?n (drop pos (cont fs files i)) @ drop (pos + ?n) (cont fs files i)"
          by (rule drop_chunk_split)
        also have "\<dots> = take ?n (drop pos (cont fs files j)) @ drop (pos + ?n) (cont fs files j)"
          using h ti tj eq by simp
        also have "\<dots> = drop pos (cont fs files j)" by (rule drop_chunk_split[symmetric])
        finally have e: "drop pos (cont fs files i) = drop pos (cont fs files j)" .
        have "?n + m = length (drop pos (cont fs files i))"
          using h by (simp add: read_chunk_def cont_def)
        with e h show ?thesis by simp
      next
        assume h: "BUFSIZE dvd m \<and>
                 read_chunk fs ?fi (pos + ?n + m) \<noteq> read_chunk fs ?fj (pos + ?n + m) \<and>
                 fflags st' = fflags ?st2 \<and> dn st' = dn ?st2"
        have "?n = BUFSIZE"
        proof (rule ccontr)
          assume "?n \<noteq> BUFSIZE"
          then have lt: "?n < BUFSIZE" by (simp add: read_chunk_def)
          then have "length (drop pos (content fs ?fi)) = ?n"
            by (simp add: read_chunk_def min_def split: if_splits)
          moreover have "length (drop pos (content fs ?fj)) = ?n"
            using lt unfolding eq by (simp add: read_chunk_def min_def split: if_splits)
          ultimately have "read_chunk fs ?fi (pos + ?n + m) = []" "read_chunk fs ?fj (pos + ?n + m) = []"
            by (simp_all add: read_chunk_def)
          with h show False by simp
        qed
        with h show ?thesis by (simp add: add.assoc)
      qed
      show ?thesis using a' t' rv tr' d' by (intro exI[of _ "?n + m"]) simp
    qed
  qed
qed

text \<open>
  The invariant of the resolution of one bucket, at the boundaries of the inner loop.
  \<open>compared tr p q\<close>: the pair was compared by content (its ledger entry is recorded).
  \<open>cmp_ok\<close>, for a compared pair \<open>(p, q)\<close> whose comparison started at offset \<open>s\<close>: the
  scan found all previous rows equal, \<open>s\<close> is the largest entry of column \<open>p\<close>, the two
  files agree on their first \<open>s + ar[p][q]\<close> bytes, and either they are identical and the
  entry is the number of bytes from \<open>s\<close> to the end, or the entry is a whole number of
  chunks and the next chunk differs. \<open>inf_ok\<close>, for a pair skipped by the inference: some
  previous row with recorded entries for both columns holds different values, and the
  two files do differ. \<open>live ff r q\<close>: column \<open>q\<close> is not flagged, or it is the row \<open>r\<close>
  being processed. The invariant also keeps the bound that makes the \<^verbatim>\<open>int\<close> indices
  exact.
\<close>

fun is_cmp :: "nat \<Rightarrow> nat \<Rightarrow> event \<Rightarrow> bool" where
  "is_cmp p q (Comparing p' q' s) = (p' = p \<and> q' = q)"
| "is_cmp p q _ = False"

definition compared :: "event list \<Rightarrow> nat \<Rightarrow> nat \<Rightarrow> bool" where
  "compared tr p q = list_ex (is_cmp p q) tr"

lemma compared_iff: "compared tr p q \<longleftrightarrow> (\<exists>s. Comparing p q s \<in> set tr)"
proof -
  have "is_cmp p q e \<longleftrightarrow> (\<exists>s. e = Comparing p q s)" for e
    by (cases e) auto
  then show ?thesis by (auto simp: compared_def list_ex_iff)
qed

definition donep :: "nat \<Rightarrow> nat \<Rightarrow> nat \<Rightarrow> nat \<Rightarrow> nat \<Rightarrow> bool" where
  "donep cnt i j p q = (p < q \<and> q < cnt \<and> (p < i \<or> (p = i \<and> q < j)))"

definition live :: "int list \<Rightarrow> nat \<Rightarrow> nat \<Rightarrow> bool" where
  "live ff r q = (ff ! q = 0 \<or> q = r)"

definition cmp_ok ::
  "filesys \<Rightarrow> fe list \<Rightarrow> int list \<Rightarrow> int list \<Rightarrow> nat \<Rightarrow> nat \<Rightarrow> nat \<Rightarrow> int \<Rightarrow> bool" where
  "cmp_ok fs files a ff r p q s =
     (s = colmax files a p p \<and>
      (\<forall>p'<p. cell files a p' p = cell files a p' q) \<and>
      0 \<le> cell files a p q \<and>
      take (nat (s + cell files a p q)) (cont fs files p)
        = take (nat (s + cell files a p q)) (cont fs files q) \<and>
      (cont fs files p = cont fs files q \<or>
       int BUFSIZE dvd cell files a p q \<and>
       read_chunk fs (name (files ! p)) (nat (s + cell files a p q))
         \<noteq> read_chunk fs (name (files ! q)) (nat (s + cell files a p q))) \<and>
      (live ff r q \<longrightarrow>
         int BUFSIZE dvd cell files a p q \<and>
         read_chunk fs (name (files ! p)) (nat (s + cell files a p q))
           \<noteq> read_chunk fs (name (files ! q)) (nat (s + cell files a p q))) \<and>
      (cont fs files p = cont fs files q \<longrightarrow>
         cell files a p q = int (length (drop (nat s) (cont fs files p)))))"

definition inf_ok :: "filesys \<Rightarrow> fe list \<Rightarrow> int list \<Rightarrow> event list \<Rightarrow> nat \<Rightarrow> nat \<Rightarrow> bool" where
  "inf_ok fs files a tr p q =
     ((\<exists>p'<p. compared tr p' p \<and> compared tr p' q \<and> cell files a p' p \<noteq> cell files a p' q) \<and>
      cont fs files p \<noteq> cont fs files q)"

definition ledger_inv ::
  "filesys \<Rightarrow> fe list \<Rightarrow> nat \<Rightarrow> nat \<Rightarrow> nat \<Rightarrow> int list \<Rightarrow> int list \<Rightarrow> event list \<Rightarrow> bool" where
  "ledger_inv fs files i j r a ff tr =
     ((length files * length files \<le> INT_MAX \<and> length a = length files * length files) \<and>
      length ff = length files \<and>
      (\<forall>p q. p < q \<and> q < length files \<and> \<not> compared tr p q \<longrightarrow> cell files a p q = 0) \<and>
      (\<forall>p q s. Comparing p q s \<in> set tr \<longrightarrow>
         donep (length files) i j p q \<and> cmp_ok fs files a ff r p q s) \<and>
      (\<forall>p q. Inferred p q \<in> set tr \<longrightarrow>
         donep (length files) i j p q \<and> inf_ok fs files a tr p q) \<and>
      (\<forall>p q q'. (compared tr p q \<or> Inferred p q \<in> set tr) \<and> p < i \<and> p < q' \<and>
                 q' < length files \<and> live ff r q' \<longrightarrow>
                 compared tr p q' \<or> Inferred p q' \<in> set tr) \<and>
      (r = i \<longrightarrow> (\<forall>q'. i < q' \<and> q' < j \<and> q' < length files \<and> live ff r q' \<longrightarrow>
                 compared tr i q' \<or> Inferred i q' \<in> set tr)))"

lemma cell_index_eq:
  assumes "q < n" "j < n"
  shows "p * n + q = i * n + j \<longleftrightarrow> p = i \<and> q = (j::nat)"
proof
  assume e: "p * n + q = i * n + j"
  have "(p * n + q) div n = p" "(i * n + j) div n = i" using assms by simp_all
  with e have "p = i" by simp
  with e show "p = i \<and> q = j" by simp
qed simp

lemma cell_in_range: "i < n \<Longrightarrow> j < n \<Longrightarrow> i * n + j < n * (n::nat)"
proof -
  assume a: "i < n" "j < n"
  then have "i * n + j < i * n + n" by simp
  also have "\<dots> = (i + 1) * n" by simp
  also have "\<dots> \<le> n * n" using a(1) by (metis Suc_eq_plus1 Suc_leI mult.commute mult_le_mono2)
  finally show ?thesis .
qed

lemma idx_cell:
  assumes "n * n \<le> INT_MAX" "i < n" "j < n"
  shows "idx i n j = i * n + j"
  using cell_in_range[OF assms(2,3)] assms(1) by (intro idx_nat) simp

lemma cell_update:
  assumes "length files * length files \<le> INT_MAX"
    "p < length files" "q < length files" "i < length files" "j < length files"
    "idx i (length files) j < length a"
  shows "cell files (a[idx i (length files) j := v]) p q
           = (if p = i \<and> q = j then v else cell files a p q)"
  using assms(6) cell_index_eq[OF assms(3,5), of p i]
  unfolding cell_def idx_cell[OF assms(1,2,3)] idx_cell[OF assms(1,4,5)]
  by auto

lemma take_chunk_agree:
  assumes "take n xs = take n ys" "k + b \<le> n"
  shows "take b (drop k xs) = take b (drop k ys)"
proof -
  have "take b (drop k xs) = take b (drop k (take n xs))"
    using assms(2) by (simp add: drop_take min_def)
  also have "\<dots> = take b (drop k (take n ys))" by (simp add: assms(1))
  also have "\<dots> = take b (drop k ys)"
    using assms(2) by (simp add: drop_take min_def)
  finally show ?thesis .
qed

lemma take_prefix_extend:
  assumes "take s xs = take s ys" "take m (drop s xs) = take m (drop s ys)"
  shows "take (s + m) xs = take (s + m) ys"
  using assms by (simp add: take_add)

lemma chunk_differ_imp:
  "read_chunk fs (name (files ! p)) k \<noteq> read_chunk fs (name (files ! q)) k \<Longrightarrow>
   cont fs files p \<noteq> cont fs files q"
  by (auto simp: read_chunk_def cont_def)

lemma inference_sound:
  assumes inv: "ledger_inv fs files i j i a ff tr"
    and ij: "i < j" "j < length files" and fj: "ff ! j = 0"
    and ex: "\<exists>p<i. cell files a p i \<noteq> cell files a p j"
  shows "inf_ok fs files a tr i j"
proof -
  define P where "P p \<longleftrightarrow> p < i \<and> cell files a p i \<noteq> cell files a p j" for p
  define p where "p = (LEAST p. P p)"
  from ex have "\<exists>p. P p" by (auto simp: P_def)
  then have Pp: "P p" unfolding p_def by (rule LeastI_ex)
  have least: "\<not> P p'" if "p' < p" for p' using that not_less_Least unfolding p_def by blast
  from Pp have pi: "p < i" and ne: "cell files a p i \<noteq> cell files a p j" by (auto simp: P_def)
  have eq_below: "cell files a p' i = cell files a p' j" if "p' < p" for p'
    using least[OF that] that pi by (auto simp: P_def)
  have live_i: "live ff i i" and live_j: "live ff i j" using fj by (auto simp: live_def)
  have icnt: "i < length files" using ij by simp
  note I = inv[unfolded ledger_inv_def]
  have zero: "cell files a p q = 0" if "p < q" "q < length files" "\<not> compared tr p q" for p q
    using I that by blast
  have cmpd: "cmp_ok fs files a ff i p q s" if "Comparing p q s \<in> set tr" for p q s
    using I that by blast
  have infd: "inf_ok fs files a tr p q" if "Inferred p q \<in> set tr" for p q
    using I that by blast
  have cover: "compared tr p q' \<or> Inferred p q' \<in> set tr"
    if "compared tr p q" "p < i" "p < q'" "q' < length files" "live ff i q'" for p q q'
    using I that by blast
  have both: "compared tr p i \<and> compared tr p j"
  proof (cases "compared tr p i")
    case ci: True
    show ?thesis
    proof (cases "compared tr p j")
      case True
      with ci show ?thesis by simp
    next
      case False
      from cover[OF ci pi _ ij(2) live_j] pi ij False have "Inferred p j \<in> set tr" by auto
      from infd[OF this] obtain p' where p': "p' < p" "cell files a p' p \<noteq> cell files a p' j"
        by (auto simp: inf_ok_def)
      from ci obtain s where "Comparing p i s \<in> set tr" by (auto simp: compared_iff)
      from cmpd[OF this] p'(1) have "cell files a p' p = cell files a p' i" by (auto simp: cmp_ok_def)
      with p'(2) eq_below[OF p'(1)] show ?thesis by simp
    qed
  next
    case nci: False
    show ?thesis
    proof (cases "compared tr p j")
      case cj: True
      from cover[OF cj pi pi icnt live_i] nci have "Inferred p i \<in> set tr" by auto
      from infd[OF this] obtain p' where p': "p' < p" "cell files a p' p \<noteq> cell files a p' i"
        by (auto simp: inf_ok_def)
      from cj obtain s where "Comparing p j s \<in> set tr" by (auto simp: compared_iff)
      from cmpd[OF this] p'(1) have "cell files a p' p = cell files a p' j" by (auto simp: cmp_ok_def)
      with p'(2) eq_below[OF p'(1)] show ?thesis by simp
    next
      case False
      from zero[OF pi icnt nci] zero[OF _ ij(2) False] pi ij ne show ?thesis by simp
    qed
  qed
  then obtain si sj where ev: "Comparing p i si \<in> set tr" "Comparing p j sj \<in> set tr"
    by (auto simp: compared_iff)
  let ?s = "colmax files a p p"
  let ?ai = "cell files a p i" and ?aj = "cell files a p j"
  from cmpd[OF ev(1)] live_i have
    ci: "0 \<le> ?ai" "int BUFSIZE dvd ?ai"
      "take (nat (?s + ?ai)) (cont fs files p) = take (nat (?s + ?ai)) (cont fs files i)"
      "read_chunk fs (name (files ! p)) (nat (?s + ?ai)) \<noteq> read_chunk fs (name (files ! i)) (nat (?s + ?ai))"
    by (auto simp: cmp_ok_def)
  from cmpd[OF ev(2)] live_j have
    cj: "0 \<le> ?aj" "int BUFSIZE dvd ?aj"
      "take (nat (?s + ?aj)) (cont fs files p) = take (nat (?s + ?aj)) (cont fs files j)"
      "read_chunk fs (name (files ! p)) (nat (?s + ?aj)) \<noteq> read_chunk fs (name (files ! j)) (nat (?s + ?aj))"
    by (auto simp: cmp_ok_def)
  have s0: "0 \<le> ?s" by (rule colmax_nonneg)
  have gap: "x + int BUFSIZE \<le> y" if "x < y" "int BUFSIZE dvd x" "int BUFSIZE dvd y" for x y
  proof -
    from that obtain k l where "x = int BUFSIZE * k" "y = int BUFSIZE * l" by (auto simp: dvd_def)
    with that(1) BUFSIZE_pos have "k < l" by (simp add: mult_less_cancel_left)
    then have "k + 1 \<le> l" by simp
    then have "int BUFSIZE * (k + 1) \<le> int BUFSIZE * l" by (intro mult_left_mono) simp_all
    then show ?thesis using \<open>x = _\<close> \<open>y = _\<close> by (simp add: algebra_simps)
  qed
  have "cont fs files i \<noteq> cont fs files j"
  proof
    assume e: "cont fs files i = cont fs files j"
    show False
    proof (cases "?ai < ?aj")
      case True
      from gap[OF True ci(2) cj(2)] s0 ci(1)
      have le: "nat (?s + ?ai) + BUFSIZE \<le> nat (?s + ?aj)" by linarith
      from take_chunk_agree[OF cj(3) le] e ci(4) show False
        by (simp add: read_chunk_def cont_def)
    next
      case False
      with ne have lt: "?aj < ?ai" by simp
      from gap[OF lt cj(2) ci(2)] s0 cj(1)
      have le: "nat (?s + ?aj) + BUFSIZE \<le> nat (?s + ?ai)" by linarith
      from take_chunk_agree[OF ci(3) le] e cj(4) show False
        by (simp add: read_chunk_def cont_def)
    qed
  qed
  with both pi ne show ?thesis by (auto simp: inf_ok_def)
qed

lemma skip_sound:
  assumes inv: "ledger_inv fs files i j i a ff tr"
    and ij: "i < j" "j < length files"
    and eq: "\<forall>p<i. cell files a p i = cell files a p j"
  shows "take (nat (colmax files a i i)) (cont fs files i)
           = take (nat (colmax files a i i)) (cont fs files j)"
proof (cases "0 < colmax files a i i")
  case False
  then show ?thesis by simp
next
  case True
  from colmax_attained[OF True] obtain p where p: "p < i" "cell files a p i = colmax files a i i"
    by blast
  let ?s = "colmax files a i i"
  note I = inv[unfolded ledger_inv_def]
  have pj: "cell files a p j = ?s" using eq p by simp
  have "compared tr p i" using I p True ij by (metis less_trans not_less_iff_gr_or_eq)
  moreover have "compared tr p j" using I pj p True ij
    by (metis less_trans not_less_iff_gr_or_eq)
  ultimately obtain si sj where ev: "Comparing p i si \<in> set tr" "Comparing p j sj \<in> set tr"
    by (auto simp: compared_iff)
  let ?sp = "colmax files a p p"
  have cmpd: "cmp_ok fs files a ff i p q s" if "Comparing p q s \<in> set tr" for p q s
    using I that by blast
  from cmpd[OF ev(1)] p(2) have
    ti: "take (nat (?sp + ?s)) (cont fs files p) = take (nat (?sp + ?s)) (cont fs files i)"
    by (auto simp: cmp_ok_def)
  from cmpd[OF ev(2)] pj have
    tj: "take (nat (?sp + ?s)) (cont fs files p) = take (nat (?sp + ?s)) (cont fs files j)"
    by (auto simp: cmp_ok_def)
  have "nat ?s \<le> nat (?sp + ?s)" using colmax_nonneg[of files a p p] by simp
  then have "take (nat ?s) xs = take (nat ?s) (take (nat (?sp + ?s)) xs)" for xs :: string
    by (simp add: min_def)
  with ti tj show ?thesis by metis
qed

fun is_sys :: "event \<Rightarrow> bool" where
  "is_sys (Inferred i j) = False"
| "is_sys (Comparing i j s) = False"
| "is_sys _ = True"

lemma compared_append_Inferred [simp]: "compared (tr @ [Inferred i j]) p q = compared tr p q"
  by (simp add: compared_def)

lemma donep_step: "donep cnt i j p q \<Longrightarrow> donep cnt i (j + 1) p q"
  by (auto simp: donep_def)

lemma inv_inferred:
  assumes inv: "ledger_inv fs files i j i a ff tr"
    and ij: "i < j" "j < length files" and fj: "ff ! j = 0"
    and ex: "\<exists>p<i. cell files a p i \<noteq> cell files a p j"
  shows "ledger_inv fs files i (j + 1) i a ff (tr @ [Inferred i j])"
proof -
  note I = inv[unfolded ledger_inv_def]
  have new: "inf_ok fs files a tr i j" by (rule inference_sound[OF inv ij fj ex])
  have inf_mono: "inf_ok fs files a (tr @ [Inferred i j]) p q" if "inf_ok fs files a tr p q" for p q
    using that by (simp add: inf_ok_def)
  have c3: "\<forall>p q. p < q \<and> q < length files \<and> \<not> compared (tr @ [Inferred i j]) p q
              \<longrightarrow> cell files a p q = 0"
    using I by simp
  have c4: "\<forall>p q s. Comparing p q s \<in> set (tr @ [Inferred i j]) \<longrightarrow>
         donep (length files) i (j + 1) p q \<and> cmp_ok fs files a ff i p q s"
    using I donep_step by auto
  have c5: "\<forall>p q. Inferred p q \<in> set (tr @ [Inferred i j]) \<longrightarrow>
         donep (length files) i (j + 1) p q \<and> inf_ok fs files a (tr @ [Inferred i j]) p q"
  proof (intro allI impI)
    fix p q assume "Inferred p q \<in> set (tr @ [Inferred i j])"
    then consider "Inferred p q \<in> set tr" | "p = i" "q = j" by auto
    then show "donep (length files) i (j + 1) p q \<and> inf_ok fs files a (tr @ [Inferred i j]) p q"
    proof cases
      case 1
      with I have "donep (length files) i j p q" "inf_ok fs files a tr p q" by blast+
      then show ?thesis using donep_step inf_mono by blast
    next
      case 2
      then show ?thesis using new inf_mono ij by (simp add: donep_def)
    qed
  qed
  have c6: "\<forall>p q q'. (compared (tr @ [Inferred i j]) p q \<or> Inferred p q \<in> set (tr @ [Inferred i j]))
                 \<and> p < i \<and> p < q' \<and> q' < length files \<and> live ff i q' \<longrightarrow>
                 compared (tr @ [Inferred i j]) p q' \<or> Inferred p q' \<in> set (tr @ [Inferred i j])"
  proof (intro allI impI)
    fix p q q'
    assume h: "(compared (tr @ [Inferred i j]) p q \<or> Inferred p q \<in> set (tr @ [Inferred i j]))
                 \<and> p < i \<and> p < q' \<and> q' < length files \<and> live ff i q'"
    then have "compared tr p q \<or> Inferred p q \<in> set tr" by auto
    with h I have "compared tr p q' \<or> Inferred p q' \<in> set tr" by blast
    then show "compared (tr @ [Inferred i j]) p q' \<or> Inferred p q' \<in> set (tr @ [Inferred i j])"
      by auto
  qed
  have c7: "\<forall>q'. i < q' \<and> q' < j + 1 \<and> q' < length files \<and> live ff i q' \<longrightarrow>
                 compared (tr @ [Inferred i j]) i q' \<or> Inferred i q' \<in> set (tr @ [Inferred i j])"
  proof (intro allI impI)
    fix q' assume h: "i < q' \<and> q' < j + 1 \<and> q' < length files \<and> live ff i q'"
    show "compared (tr @ [Inferred i j]) i q' \<or> Inferred i q' \<in> set (tr @ [Inferred i j])"
    proof (cases "q' = j")
      case True
      then show ?thesis by simp
    next
      case False
      with h have "q' < j" by simp
      with h I have "compared tr i q' \<or> Inferred i q' \<in> set tr" by blast
      then show ?thesis by auto
    qed
  qed
  show ?thesis unfolding ledger_inv_def using I c3 c4 c5 c6 c7 by blast
qed

lemma inv_compared:
  assumes inv: "ledger_inv fs files i j i a ff tr"
    and ij: "i < j" "j < length files" and fj: "ff ! j = 0"
    and eq: "\<forall>p<i. cell files a p i = cell files a p j"
    and s: "s = colmax files a i i"
    and tr': "set tr' = insert (Comparing i j s) (set tr \<union> S)" "\<forall>e\<in>S. is_sys e"
    and a': "a' = a[idx i (length files) j := a ! idx i (length files) j + int m]"
    and agree: "take m (drop (nat s) (cont fs files i)) = take m (drop (nat s) (cont fs files j))"
    and res: "(drop (nat s) (cont fs files i) = drop (nat s) (cont fs files j) \<and>
               m = length (drop (nat s) (cont fs files i)) \<and> ff' = ff[i := 1, j := 1]) \<or>
              (BUFSIZE dvd m \<and>
               read_chunk fs (name (files ! i)) (nat s + m) \<noteq> read_chunk fs (name (files ! j)) (nat s + m) \<and>
               ff' = ff)"
  shows "ledger_inv fs files i (j + 1) i a' ff' tr'"
    and "cont fs files i = cont fs files j \<longleftrightarrow> ff' = ff[i := 1, j := 1] \<and> ff' \<noteq> ff"
    and "cont fs files i = cont fs files j \<longleftrightarrow> drop (nat s) (cont fs files i) = drop (nat s) (cont fs files j)"
proof -
  note I = inv[unfolded ledger_inv_def]
  let ?n = "length files"
  have g: "?n * ?n \<le> INT_MAX" using I by auto
  have len: "length a = ?n * ?n" "length ff = ?n" using I by auto
  have icnt: "i < ?n" using ij by simp
  have k: "idx i ?n j < length a"
    using cell_in_range[OF icnt ij(2)] len idx_cell[OF g icnt ij(2)] by simp
  have not_cmp: "\<not> compared tr i j"
  proof
    assume "compared tr i j"
    then obtain s' where "Comparing i j s' \<in> set tr" by (auto simp: compared_iff)
    with I have "donep ?n i j i j" by blast
    then show False by (simp add: donep_def)
  qed
  have zero: "cell files a i j = 0" using I not_cmp ij by blast
  have cells: "cell files a' p q = (if p = i \<and> q = j then int m else cell files a p q)"
    if "p < ?n" "q < ?n" for p q
    using cell_update[OF g that icnt ij(2) k] zero unfolding a' by (simp add: cell_def)
  have cmax: "colmax files a' p p = colmax files a p p" if "p \<le> i" for p
    using that icnt by (intro colmax_cong) (simp add: cells)
  have s0: "0 \<le> s" unfolding s by (rule colmax_nonneg)
  have skip: "take (nat s) (cont fs files i) = take (nat s) (cont fs files j)"
    unfolding s by (rule skip_sound[OF inv ij eq])
  have ev_cmp: "Comparing p q s' \<in> set tr' \<longleftrightarrow>
                  Comparing p q s' \<in> set tr \<or> (p = i \<and> q = j \<and> s' = s)" for p q s'
    using tr' by auto
  have ev_inf: "Inferred p q \<in> set tr' \<longleftrightarrow> Inferred p q \<in> set tr" for p q
    using tr' by auto
  have cmp': "compared tr' p q \<longleftrightarrow> compared tr p q \<or> (p = i \<and> q = j)" for p q
    by (auto simp: compared_iff ev_cmp)
  have ff'_len: "length ff' = ?n" using res len by auto
  have ff'j: "ff' = ff[i := 1, j := 1] \<Longrightarrow> ff' ! j = 1" using len ij by simp
  have live': "live ff i q" if "live ff' i q" "q < ?n" for q
  proof (cases "q = i")
    case True
    then show ?thesis by (simp add: live_def)
  next
    case False
    with that have z: "ff' ! q = 0" by (simp add: live_def)
    show ?thesis
    proof (cases "ff' = ff")
      case True
      with z show ?thesis by (simp add: live_def)
    next
      case F2: False
      with res have u: "ff' = ff[i := 1, j := 1]" by auto
      with z ff'j have "q \<noteq> j" by auto
      with u z False show ?thesis by (simp add: live_def)
    qed
  qed
  have full: "take (nat s + m) (cont fs files i) = take (nat s + m) (cont fs files j)"
    by (rule take_prefix_extend[OF skip agree])
  have dup_iff: "cont fs files i = cont fs files j
                   \<longleftrightarrow> drop (nat s) (cont fs files i) = drop (nat s) (cont fs files j)"
  proof
    assume "drop (nat s) (cont fs files i) = drop (nat s) (cont fs files j)"
    with skip show "cont fs files i = cont fs files j"
      by (metis append_take_drop_id)
  qed simp
  have nodup: "cont fs files i \<noteq> cont fs files j"
    if "read_chunk fs (name (files ! i)) (nat s + m) \<noteq> read_chunk fs (name (files ! j)) (nat s + m)"
    using that by (rule chunk_differ_imp)
  have ffne: "ff[i := 1, j := 1] \<noteq> ff" using fj len ij
    by (metis length_list_update nth_list_update_eq zero_neq_one)
  show r2: "cont fs files i = cont fs files j \<longleftrightarrow> ff' = ff[i := 1, j := 1] \<and> ff' \<noteq> ff"
    using res dup_iff nodup ffne by auto
  show "cont fs files i = cont fs files j \<longleftrightarrow> drop (nat s) (cont fs files i) = drop (nat s) (cont fs files j)"
    by (rule dup_iff)
  have new: "cmp_ok fs files a' ff' i i j s"
  proof -
    have 1: "s = colmax files a' i i" using cmax[of i] s by simp
    have 2: "\<forall>p'<i. cell files a' p' i = cell files a' p' j"
      using eq icnt ij by (simp add: cells)
    have 3: "cell files a' i j = int m" using ij by (simp add: cells)
    have 4: "take (nat (s + int m)) (cont fs files i) = take (nat (s + int m)) (cont fs files j)"
      using full s0 by (simp add: nat_add_distrib)
    have 5: "int BUFSIZE dvd int m \<and>
         read_chunk fs (name (files ! i)) (nat (s + int m))
           \<noteq> read_chunk fs (name (files ! j)) (nat (s + int m))" if "live ff' i j"
    proof -
      from that ij have "ff' ! j = 0" by (simp add: live_def)
      with ff'j res have "BUFSIZE dvd m \<and>
               read_chunk fs (name (files ! i)) (nat s + m) \<noteq> read_chunk fs (name (files ! j)) (nat s + m)"
        by auto
      then show ?thesis using s0 by (simp add: nat_add_distrib)
    qed
    have 6: "cont fs files i = cont fs files j \<or>
       int BUFSIZE dvd int m \<and>
       read_chunk fs (name (files ! i)) (nat (s + int m))
         \<noteq> read_chunk fs (name (files ! j)) (nat (s + int m))"
      using res dup_iff s0 by (auto simp: nat_add_distrib)
    have 7: "cell files a' i j = int (length (drop (nat s) (cont fs files i)))"
      if "cont fs files i = cont fs files j"
      using that res dup_iff nodup 3 by auto
    show ?thesis unfolding cmp_ok_def using 1 2 3 4 5 6 7 by simp
  qed
  have old: "cmp_ok fs files a' ff' i p q s'"
    if c: "cmp_ok fs files a ff i p q s'" and d: "donep ?n i j p q" for p q s'
  proof -
    from d have pq: "p < q" "q < ?n" "p \<le> i" "\<not> (p = i \<and> q = j)" by (auto simp: donep_def)
    have pn: "p < ?n" using pq by simp
    have 1: "colmax files a' p p = colmax files a p p" by (rule cmax[OF pq(3)])
    have 2: "cell files a' p' p = cell files a p' p" "cell files a' p' q = cell files a p' q"
      if "p' < p" for p' using that pq pn by (simp_all add: cells)
    have 3: "cell files a' p q = cell files a p q" using pq by (auto simp: cells)
    show ?thesis using c live'[OF _ pq(2)] unfolding cmp_ok_def 1 3 by (auto simp: 2)
  qed
  have c3: "\<forall>p q. p < q \<and> q < ?n \<and> \<not> compared tr' p q \<longrightarrow> cell files a' p q = 0"
    using I by (auto simp: cmp' cells)
  have c4: "\<forall>p q s'. Comparing p q s' \<in> set tr' \<longrightarrow>
         donep ?n i (j + 1) p q \<and> cmp_ok fs files a' ff' i p q s'"
  proof (intro allI impI)
    fix p q s' assume "Comparing p q s' \<in> set tr'"
    then consider "Comparing p q s' \<in> set tr" | "p = i" "q = j" "s' = s" by (auto simp: ev_cmp)
    then show "donep ?n i (j + 1) p q \<and> cmp_ok fs files a' ff' i p q s'"
    proof cases
      case 1
      with I have "donep ?n i j p q" "cmp_ok fs files a ff i p q s'" by blast+
      then show ?thesis using old donep_step by blast
    next
      case 2
      then show ?thesis using new ij by (simp add: donep_def)
    qed
  qed
  have c5: "\<forall>p q. Inferred p q \<in> set tr' \<longrightarrow>
         donep ?n i (j + 1) p q \<and> inf_ok fs files a' tr' p q"
  proof (intro allI impI)
    fix p q assume "Inferred p q \<in> set tr'"
    then have "Inferred p q \<in> set tr" by (simp add: ev_inf)
    with I have d: "donep ?n i j p q" and io: "inf_ok fs files a tr p q" by blast+
    from d have pq: "p < q" "q < ?n" "p \<le> i" by (auto simp: donep_def)
    from io obtain p' where p': "p' < p" "compared tr p' p" "compared tr p' q"
      "cell files a p' p \<noteq> cell files a p' q" and ne: "cont fs files p \<noteq> cont fs files q"
      by (auto simp: inf_ok_def)
    have "cell files a' p' p \<noteq> cell files a' p' q" using p' pq by (simp add: cells)
    with p' ne have "inf_ok fs files a' tr' p q" by (auto simp: inf_ok_def cmp')
    with d show "donep ?n i (j + 1) p q \<and> inf_ok fs files a' tr' p q"
      using donep_step by blast
  qed
  have c6: "\<forall>p q q'. (compared tr' p q \<or> Inferred p q \<in> set tr') \<and> p < i \<and> p < q' \<and>
                 q' < ?n \<and> live ff' i q' \<longrightarrow>
                 compared tr' p q' \<or> Inferred p q' \<in> set tr'"
  proof (intro allI impI)
    fix p q q'
    assume h: "(compared tr' p q \<or> Inferred p q \<in> set tr') \<and> p < i \<and> p < q' \<and>
                 q' < ?n \<and> live ff' i q'"
    then have "compared tr p q \<or> Inferred p q \<in> set tr" by (auto simp: cmp' ev_inf)
    moreover have "live ff i q'" using h live' by blast
    ultimately have "compared tr p q' \<or> Inferred p q' \<in> set tr" using h I by blast
    then show "compared tr' p q' \<or> Inferred p q' \<in> set tr'" by (auto simp: cmp' ev_inf)
  qed
  have c7: "\<forall>q'. i < q' \<and> q' < j + 1 \<and> q' < ?n \<and> live ff' i q' \<longrightarrow>
                 compared tr' i q' \<or> Inferred i q' \<in> set tr'"
  proof (intro allI impI)
    fix q' assume h: "i < q' \<and> q' < j + 1 \<and> q' < ?n \<and> live ff' i q'"
    show "compared tr' i q' \<or> Inferred i q' \<in> set tr'"
    proof (cases "q' = j")
      case True
      then show ?thesis by (simp add: cmp')
    next
      case False
      with h have "q' < j" by simp
      moreover have "live ff i q'" using h live' by blast
      ultimately have "compared tr i q' \<or> Inferred i q' \<in> set tr" using h I by blast
      then show ?thesis by (auto simp: cmp' ev_inf)
    qed
  qed
  have l1: "?n * ?n \<le> INT_MAX \<and> length a' = ?n * ?n" using g len a' by simp
  show "ledger_inv fs files i (j + 1) i a' ff' tr'"
    unfolding ledger_inv_def using l1 ff'_len c3 c4 c5 c6 c7 by blast
qed

text \<open>
  The baseline of the specification: the same two loops and the same flags, with every
  surviving pair decided by a byte-by-byte comparison of the two whole files
  (\<open>full_compare\<close>), and no ledger.
\<close>

definition full_compare :: "filesys \<Rightarrow> fe \<Rightarrow> fe \<Rightarrow> bool" where
  "full_compare fs fi fj = (content fs (name fi) = content fs (name fj))"

definition base_pair ::
  "filesys \<Rightarrow> fe list \<Rightarrow> int \<Rightarrow> nat \<Rightarrow> nat \<Rightarrow> int list \<times> dupNode option
     \<Rightarrow> int list \<times> dupNode option" where
  "base_pair fs files sz i j fd =
     (case fd of (ff, d) \<Rightarrow>
        if full_compare fs (files ! i) (files ! j)
        then (ff[i := 1, j := 1],
              Some (addDupNode sz (files ! j)
                      (if ff ! i = 0 then Some (addDupNode sz (files ! i) d) else d)))
        else (ff, d))"

function base_inner ::
  "filesys \<Rightarrow> fe list \<Rightarrow> int \<Rightarrow> nat \<Rightarrow> nat \<Rightarrow> int list \<times> dupNode option
     \<Rightarrow> int list \<times> dupNode option" where
  "base_inner fs files sz i j fd =
     (if j < length files
      then if fst fd ! j \<noteq> 0 then base_inner fs files sz i (j + 1) fd
           else base_inner fs files sz i (j + 1) (base_pair fs files sz i j fd)
      else fd)"
  by pat_completeness auto
termination
  by (relation "measure (\<lambda>(fs, files, sz, i, j, fd). length files - j)") auto

function base_outer ::
  "filesys \<Rightarrow> fe list \<Rightarrow> int \<Rightarrow> nat \<Rightarrow> int list \<times> dupNode list \<Rightarrow> int list \<times> dupNode list" where
  "base_outer fs files sz i fr =
     (if i + 1 < length files
      then if fst fr ! i \<noteq> 0 then base_outer fs files sz (i + 1) fr
           else (case base_inner fs files sz i (i + 1) (fst fr, None) of
                   (ff', d) \<Rightarrow>
                     base_outer fs files sz (i + 1)
                       (ff', case d of None \<Rightarrow> snd fr | Some g \<Rightarrow> g # snd fr))
      else fr)"
  by pat_completeness auto
termination
  by (relation "measure (\<lambda>(fs, files, sz, i, fr). length files - i)") auto

declare base_inner.simps [simp del] base_outer.simps [simp del]

abbreviation linv :: "filesys \<Rightarrow> fe list \<Rightarrow> nat \<Rightarrow> nat \<Rightarrow> nat \<Rightarrow> bstate \<Rightarrow> bool" where
  "linv fs files i j r st \<equiv> ledger_inv fs files i j r (ar st) (fflags st) (trace st)"

lemma pair_step_inv:
  assumes inv: "linv fs files i j i st"
    and ij: "i < j" "j < length files" and fj: "fflags st ! j = 0"
    and step: "pair_step fs files sz i j st = Inr st'"
  shows "linv fs files i (j + 1) i st'"
    and "retval st' = retval st"
    and "(fflags st', dn st') = base_pair fs files sz i j (fflags st, dn st)"
proof -
  let ?fi = "name (files ! i)" and ?fj = "name (files ! j)"
  let ?s = "scan_rows (length files) (ar st) i j 0 0"
  let ?a = "ar st" and ?ff = "fflags st" and ?tr = "trace st"
  have neg: "?s < 0 \<longleftrightarrow> (\<exists>p<i. cell files ?a p i \<noteq> cell files ?a p j)"
    using scan_rows_neg[of 0 files ?a i j 0] by simp
  have fc: "full_compare fs (files ! i) (files ! j) \<longleftrightarrow> cont fs files i = cont fs files j"
    by (simp add: full_compare_def cont_def)
  have "linv fs files i (j + 1) i st' \<and> retval st' = retval st \<and>
        (fflags st', dn st') = base_pair fs files sz i j (fflags st, dn st)"
  proof (cases "?s < 0")
    case True
    then have st': "st' = st\<lparr>trace := ?tr @ [Inferred i j]\<rparr>"
      using step by (simp add: pair_step_def Let_def)
    from True neg have ex: "\<exists>p<i. cell files ?a p i \<noteq> cell files ?a p j" by simp
    from inference_sound[OF inv ij fj ex] have "cont fs files i \<noteq> cont fs files j"
      by (simp add: inf_ok_def)
    with inv_inferred[OF inv ij fj ex] st' fc show ?thesis
      by (simp add: base_pair_def)
  next
    case False
    with neg have eq: "\<forall>p<i. cell files ?a p i = cell files ?a p j" by auto
    have s: "?s = colmax files ?a i i"
      using scan_rows_val[of 0 i files ?a j 0] eq by simp
    let ?st1 = "st\<lparr>trace := ?tr @ [Comparing i j ?s, Open ?fi, Open ?fj]
                                      @ (if ?s > 0 then [Lseek ?fi ?s, Lseek ?fj ?s] else [])\<rparr>"
    have nofail: "\<not> (open_fails fs ?fi \<or> open_fails fs ?fj \<or>
                (?s > 0 \<and> (seek_fails fs ?fi ?s \<or> seek_fails fs ?fj ?s)))"
    proof -
      have n1: "\<not> open_fails fs ?fi"
      proof
        assume h: "open_fails fs ?fi"
        have "\<exists>e. pair_step fs files sz i j st = Inl e"
          using False h by (simp add: pair_step_def Let_def)
        with step show False by auto
      qed
      have n2: "\<not> open_fails fs ?fj"
      proof
        assume h: "open_fails fs ?fj"
        have "\<exists>e. pair_step fs files sz i j st = Inl e"
          using False h n1 by (simp add: pair_step_def Let_def)
        with step show False by auto
      qed
      have n3: "\<not> (?s > 0 \<and> (seek_fails fs ?fi ?s \<or> seek_fails fs ?fj ?s))"
      proof
        assume h: "?s > 0 \<and> (seek_fails fs ?fi ?s \<or> seek_fails fs ?fj ?s)"
        have "\<exists>e. pair_step fs files sz i j st = Inl e"
          unfolding pair_step_def Let_def if_not_P[OF False] if_not_P[OF n1] if_not_P[OF n2]
            if_P[OF h] by blast
        with step show False by auto
      qed
      show ?thesis using n1 n2 n3 by blast
    qed
    have eqn: "pair_step fs files sz i j st =
       (case cmp_loop fs files sz i j (nat ?s) ?st1 of Inl e \<Rightarrow> Inl e
        | Inr st' \<Rightarrow> Inr (st'\<lparr>trace := trace st' @ [Close ?fj, Close ?fi]\<rparr>))"
    proof -
      from nofail have n1: "\<not> open_fails fs ?fi" and n2: "\<not> open_fails fs ?fj"
        and n3: "\<not> (?s > 0 \<and> (seek_fails fs ?fi ?s \<or> seek_fails fs ?fj ?s))" by blast+
      show ?thesis
        unfolding pair_step_def Let_def if_not_P[OF False] if_not_P[OF n1] if_not_P[OF n2]
            if_not_P[OF n3] by (rule refl)
    qed
    from step obtain st2 where c: "cmp_loop fs files sz i j (nat ?s) ?st1 = Inr st2"
      and st': "st' = st2\<lparr>trace := trace st2 @ [Close ?fj, Close ?fi]\<rparr>"
      unfolding eqn by (auto split: sum.splits)
    note I = inv[unfolded ledger_inv_def]
    have icnt: "i < length files" using ij by simp
    have g: "length files * length files \<le> INT_MAX" using I by auto
    have k: "idx i (length files) j < length (ar ?st1)"
      using cell_in_range[OF icnt ij(2)] idx_cell[OF g icnt ij(2)] I by simp
    from cmp_loop_spec[OF c k] obtain m rs where
      a2: "ar st2 = ?a[idx i (length files) j := ?a ! idx i (length files) j + int m]"
      and ag: "take m (drop (nat ?s) (cont fs files i)) = take m (drop (nat ?s) (cont fs files j))"
      and rv: "retval st2 = retval st"
      and tr2: "trace st2 = trace ?st1 @ rs" "\<forall>e \<in> set rs. \<exists>p k. e = Read p k"
      and d: "(drop (nat ?s) (cont fs files i) = drop (nat ?s) (cont fs files j) \<and>
               m = length (drop (nat ?s) (cont fs files i)) \<and>
               fflags st2 = fflags (found_dups files sz i j ?st1) \<and>
               dn st2 = dn (found_dups files sz i j ?st1)) \<or>
              (BUFSIZE dvd m \<and>
               read_chunk fs ?fi (nat ?s + m) \<noteq> read_chunk fs ?fj (nat ?s + m) \<and>
               fflags st2 = fflags ?st1 \<and> dn st2 = dn ?st1)"
      by auto
    define S where "S = set ([Open ?fi, Open ?fj]
                        @ (if ?s > 0 then [Lseek ?fi ?s, Lseek ?fj ?s] else [])
                        @ rs @ [Close ?fj, Close ?fi])"
    have trS: "set (trace st') = insert (Comparing i j ?s) (set ?tr \<union> S)"
      unfolding st' S_def using tr2(1) by auto
    have sysS: "\<forall>e\<in>S. is_sys e" unfolding S_def using tr2(2) by auto
    have ffd: "fflags (found_dups files sz i j ?st1) = ?ff[i := 1, j := 1]"
      by (simp add: found_dups_def)
    have res: "(drop (nat ?s) (cont fs files i) = drop (nat ?s) (cont fs files j) \<and>
                m = length (drop (nat ?s) (cont fs files i)) \<and>
                fflags st' = ?ff[i := 1, j := 1]) \<or>
              (BUFSIZE dvd m \<and>
               read_chunk fs ?fi (nat ?s + m) \<noteq> read_chunk fs ?fj (nat ?s + m) \<and>
               fflags st' = ?ff)"
      using d ffd st' by auto
    have a': "ar st' = ?a[idx i (length files) j := ?a ! idx i (length files) j + int m]"
      using a2 st' by simp
    note R = inv_compared[OF inv ij fj eq s trS sysS a' ag res]
    have dnff: "(fflags st', dn st') = base_pair fs files sz i j (fflags st, dn st)"
    proof (cases "cont fs files i = cont fs files j")
      case True
      with R(3) have "drop (nat ?s) (cont fs files i) = drop (nat ?s) (cont fs files j)" by simp
      moreover from True R(2) have "fflags st' \<noteq> ?ff" by blast
      ultimately have "fflags st2 = fflags (found_dups files sz i j ?st1)"
        "dn st2 = dn (found_dups files sz i j ?st1)"
        using d st' by auto
      then show ?thesis using True fc st' by (simp add: base_pair_def found_dups_def)
    next
      case False
      with R(3) have "drop (nat ?s) (cont fs files i) \<noteq> drop (nat ?s) (cont fs files j)" by simp
      with d have "fflags st2 = ?ff" "dn st2 = dn st" by auto
      then show ?thesis using False fc st' by (simp add: base_pair_def)
    qed
    show ?thesis using R(1) rv st' dnff by simp
  qed
  then show "linv fs files i (j + 1) i st'"
    and "retval st' = retval st"
    and "(fflags st', dn st') = base_pair fs files sz i j (fflags st, dn st)"
    by simp_all
qed

lemma ledger_invI:
  assumes "length files * length files \<le> INT_MAX \<and> length a = length files * length files"
    "length ff = length files"
    "\<forall>p q. p < q \<and> q < length files \<and> \<not> compared tr p q \<longrightarrow> cell files a p q = 0"
    "\<forall>p q s. Comparing p q s \<in> set tr \<longrightarrow>
         donep (length files) i j p q \<and> cmp_ok fs files a ff r p q s"
    "\<forall>p q. Inferred p q \<in> set tr \<longrightarrow>
         donep (length files) i j p q \<and> inf_ok fs files a tr p q"
    "\<forall>p q q'. (compared tr p q \<or> Inferred p q \<in> set tr) \<and> p < i \<and> p < q' \<and>
                 q' < length files \<and> live ff r q' \<longrightarrow>
                 compared tr p q' \<or> Inferred p q' \<in> set tr"
    "r = i \<longrightarrow> (\<forall>q'. i < q' \<and> q' < j \<and> q' < length files \<and> live ff r q' \<longrightarrow>
                 compared tr i q' \<or> Inferred i q' \<in> set tr)"
  shows "ledger_inv fs files i j r a ff tr"
  unfolding ledger_inv_def
  by (intro conjI) (rule assms(1)[THEN conjunct1] assms(1)[THEN conjunct2] assms)+

lemma ledger_invD:
  assumes "ledger_inv fs files i j r a ff tr"
  shows "length files * length files \<le> INT_MAX \<and> length a = length files * length files"
    "length ff = length files"
    "\<forall>p q. p < q \<and> q < length files \<and> \<not> compared tr p q \<longrightarrow> cell files a p q = 0"
    "\<forall>p q s. Comparing p q s \<in> set tr \<longrightarrow>
         donep (length files) i j p q \<and> cmp_ok fs files a ff r p q s"
    "\<forall>p q. Inferred p q \<in> set tr \<longrightarrow>
         donep (length files) i j p q \<and> inf_ok fs files a tr p q"
    "\<forall>p q q'. (compared tr p q \<or> Inferred p q \<in> set tr) \<and> p < i \<and> p < q' \<and>
                 q' < length files \<and> live ff r q' \<longrightarrow>
                 compared tr p q' \<or> Inferred p q' \<in> set tr"
    "r = i \<longrightarrow> (\<forall>q'. i < q' \<and> q' < j \<and> q' < length files \<and> live ff r q' \<longrightarrow>
                 compared tr i q' \<or> Inferred i q' \<in> set tr)"
  using assms unfolding ledger_inv_def by blast+

lemma inv_skip_col:
  assumes inv: "ledger_inv fs files i j i a ff tr" and ij: "i < j" and fj: "ff ! j \<noteq> 0"
  shows "ledger_inv fs files i (j + 1) i a ff tr"
proof (rule ledger_invI)
  note D = ledger_invD[OF inv]
  show "length files * length files \<le> INT_MAX \<and> length a = length files * length files"
    "length ff = length files"
    "\<forall>p q. p < q \<and> q < length files \<and> \<not> compared tr p q \<longrightarrow> cell files a p q = 0"
    "\<forall>p q q'. (compared tr p q \<or> Inferred p q \<in> set tr) \<and> p < i \<and> p < q' \<and>
                 q' < length files \<and> live ff i q' \<longrightarrow>
                 compared tr p q' \<or> Inferred p q' \<in> set tr"
    by (rule D)+
  show "\<forall>p q s. Comparing p q s \<in> set tr \<longrightarrow>
         donep (length files) i (j + 1) p q \<and> cmp_ok fs files a ff i p q s"
    using D(4) donep_step by blast
  show "\<forall>p q. Inferred p q \<in> set tr \<longrightarrow>
         donep (length files) i (j + 1) p q \<and> inf_ok fs files a tr p q"
    using D(5) donep_step by blast
  show "i = i \<longrightarrow> (\<forall>q'. i < q' \<and> q' < j + 1 \<and> q' < length files \<and> live ff i q' \<longrightarrow>
                 compared tr i q' \<or> Inferred i q' \<in> set tr)"
  proof (intro allI impI)
    fix q' assume h: "i < q' \<and> q' < j + 1 \<and> q' < length files \<and> live ff i q'"
    with ij fj have "q' \<noteq> j" by (auto simp: live_def)
    with h have "q' < j" by simp
    with h D(7) show "compared tr i q' \<or> Inferred i q' \<in> set tr" by blast
  qed
qed

lemma inner_loop_inv:
  "linv fs files i j i st \<Longrightarrow> i < j \<Longrightarrow> j \<le> length files \<Longrightarrow>
   inner_loop fs files sz i j st = Inr st' \<Longrightarrow>
   linv fs files i (length files) i st' \<and> retval st' = retval st \<and>
   (fflags st', dn st') = base_inner fs files sz i j (fflags st, dn st)"
proof (induction fs files sz i j st rule: inner_loop.induct)
  case (1 fs files sz i j st)
  show ?case
  proof (cases "j < length files")
    case False
    from "1.prems"(4) False have e: "st' = st"
      by (subst (asm) inner_loop.simps) simp
    from False "1.prems"(3) have j: "j = length files" by simp
    have "base_inner fs files sz i j (fflags st, dn st) = (fflags st, dn st)"
      using False by (subst base_inner.simps) simp
    with "1.prems"(1) e j show ?thesis by simp
  next
    case True
    show ?thesis
    proof (cases "fflags st ! j \<noteq> 0")
      case T2: True
      have "inner_loop fs files sz i (j + 1) st = Inr st'"
        using "1.prems"(4) True T2 by (subst (asm) inner_loop.simps) simp
      moreover have "linv fs files i (j + 1) i st"
        by (rule inv_skip_col[OF "1.prems"(1,2) T2])
      ultimately have "linv fs files i (length files) i st' \<and> retval st' = retval st \<and>
         (fflags st', dn st') = base_inner fs files sz i (j + 1) (fflags st, dn st)"
        using "1.IH"(1)[OF True T2] "1.prems"(2) True by simp
      moreover have "base_inner fs files sz i j (fflags st, dn st)
                       = base_inner fs files sz i (j + 1) (fflags st, dn st)"
        using True T2 by (subst base_inner.simps) simp
      ultimately show ?thesis by simp
    next
      case False
      then have fj: "fflags st ! j = 0" by simp
      have "(case pair_step fs files sz i j st of Inl e \<Rightarrow> Inl e
             | Inr st1 \<Rightarrow> inner_loop fs files sz i (j + 1) st1) = Inr st'"
        using "1.prems"(4) True False by (subst (asm) inner_loop.simps) simp
      then obtain st1 where
        ps: "pair_step fs files sz i j st = Inr st1"
        and il: "inner_loop fs files sz i (j + 1) st1 = Inr st'"
        by (cases "pair_step fs files sz i j st") auto
      note P = pair_step_inv[OF "1.prems"(1,2) True fj ps]
      have "linv fs files i (length files) i st' \<and> retval st' = retval st1 \<and>
         (fflags st', dn st') = base_inner fs files sz i (j + 1) (fflags st1, dn st1)"
        using "1.IH"(2)[OF True False ps P(1) _ _ il] "1.prems"(2) True by simp
      moreover have "base_inner fs files sz i j (fflags st, dn st)
                       = base_inner fs files sz i (j + 1) (base_pair fs files sz i j (fflags st, dn st))"
        using True fj by (subst base_inner.simps) simp
      ultimately show ?thesis using P(2,3) by simp
    qed
  qed
qed

lemma inv_row_skip:
  assumes inv: "ledger_inv fs files i (i + 1) (length files) a ff tr"
  shows "ledger_inv fs files (i + 1) (i + 1 + 1) (length files) a ff tr"
proof (rule ledger_invI)
  note D = ledger_invD[OF inv]
  have d: "donep (length files) (i + 1) (i + 1 + 1) p q \<and> p < i"
    if "donep (length files) i (i + 1) p q" for p q
    using that by (auto simp: donep_def)
  show "length files * length files \<le> INT_MAX \<and> length a = length files * length files"
    "length ff = length files"
    "\<forall>p q. p < q \<and> q < length files \<and> \<not> compared tr p q \<longrightarrow> cell files a p q = 0"
    by (rule D)+
  show "\<forall>p q s. Comparing p q s \<in> set tr \<longrightarrow>
         donep (length files) (i + 1) (i + 1 + 1) p q \<and> cmp_ok fs files a ff (length files) p q s"
    using D(4) d by blast
  show "\<forall>p q. Inferred p q \<in> set tr \<longrightarrow>
         donep (length files) (i + 1) (i + 1 + 1) p q \<and> inf_ok fs files a tr p q"
    using D(5) d by blast
  show "\<forall>p q q'. (compared tr p q \<or> Inferred p q \<in> set tr) \<and> p < i + 1 \<and> p < q' \<and>
                 q' < length files \<and> live ff (length files) q' \<longrightarrow>
                 compared tr p q' \<or> Inferred p q' \<in> set tr"
  proof (intro allI impI)
    fix p q q'
    assume h: "(compared tr p q \<or> Inferred p q \<in> set tr) \<and> p < i + 1 \<and> p < q' \<and>
                 q' < length files \<and> live ff (length files) q'"
    then have "donep (length files) i (i + 1) p q"
      using D(4) D(5) by (auto simp: compared_iff)
    then have "p < i" using d by blast
    with h D(6) show "compared tr p q' \<or> Inferred p q' \<in> set tr" by blast
  qed
  show "length files = i + 1 \<longrightarrow>
        (\<forall>q'. i + 1 < q' \<and> q' < i + 1 + 1 \<and> q' < length files \<and> live ff (length files) q' \<longrightarrow>
                 compared tr (i + 1) q' \<or> Inferred (i + 1) q' \<in> set tr)"
    by auto
qed

lemma inv_row_enter:
  assumes inv: "ledger_inv fs files i (i + 1) (length files) a ff tr" and fi: "ff ! i = 0"
  shows "ledger_inv fs files i (i + 1) i a ff tr"
proof (rule ledger_invI)
  note D = ledger_invD[OF inv]
  have lv: "live ff (length files) q" if "live ff i q" for q
    using that fi by (auto simp: live_def)
  show "length files * length files \<le> INT_MAX \<and> length a = length files * length files"
    "length ff = length files"
    "\<forall>p q. p < q \<and> q < length files \<and> \<not> compared tr p q \<longrightarrow> cell files a p q = 0"
    "\<forall>p q. Inferred p q \<in> set tr \<longrightarrow>
         donep (length files) i (i + 1) p q \<and> inf_ok fs files a tr p q"
    by (rule D)+
  show "\<forall>p q s. Comparing p q s \<in> set tr \<longrightarrow>
         donep (length files) i (i + 1) p q \<and> cmp_ok fs files a ff i p q s"
  proof (intro allI impI)
    fix p q s assume "Comparing p q s \<in> set tr"
    with D(4) have "donep (length files) i (i + 1) p q" "cmp_ok fs files a ff (length files) p q s"
      by blast+
    then show "donep (length files) i (i + 1) p q \<and> cmp_ok fs files a ff i p q s"
      using lv unfolding cmp_ok_def by blast
  qed
  show "\<forall>p q q'. (compared tr p q \<or> Inferred p q \<in> set tr) \<and> p < i \<and> p < q' \<and>
                 q' < length files \<and> live ff i q' \<longrightarrow>
                 compared tr p q' \<or> Inferred p q' \<in> set tr"
    using D(6) lv by blast
  show "i = i \<longrightarrow> (\<forall>q'. i < q' \<and> q' < i + 1 \<and> q' < length files \<and> live ff i q' \<longrightarrow>
                 compared tr i q' \<or> Inferred i q' \<in> set tr)"
    by auto
qed

lemma inv_row_exit:
  assumes inv: "ledger_inv fs files i (length files) i a ff tr"
  shows "ledger_inv fs files (i + 1) (i + 1 + 1) (length files) a ff tr"
proof (rule ledger_invI)
  note D = ledger_invD[OF inv]
  have d: "donep (length files) (i + 1) (i + 1 + 1) p q"
    if "donep (length files) i (length files) p q" for p q
    using that by (auto simp: donep_def)
  have lv: "live ff i q" if "live ff (length files) q" "q < length files" for q
    using that by (auto simp: live_def)
  show "length files * length files \<le> INT_MAX \<and> length a = length files * length files"
    "length ff = length files"
    "\<forall>p q. p < q \<and> q < length files \<and> \<not> compared tr p q \<longrightarrow> cell files a p q = 0"
    by (rule D)+
  show "\<forall>p q s. Comparing p q s \<in> set tr \<longrightarrow>
         donep (length files) (i + 1) (i + 1 + 1) p q \<and> cmp_ok fs files a ff (length files) p q s"
  proof (intro allI impI)
    fix p q s assume "Comparing p q s \<in> set tr"
    with D(4) have dd: "donep (length files) i (length files) p q" and c: "cmp_ok fs files a ff i p q s"
      by blast+
    from dd have "q < length files" by (simp add: donep_def)
    with c lv have "cmp_ok fs files a ff (length files) p q s" unfolding cmp_ok_def by blast
    with d[OF dd]
    show "donep (length files) (i + 1) (i + 1 + 1) p q \<and> cmp_ok fs files a ff (length files) p q s"
      by simp
  qed
  show "\<forall>p q. Inferred p q \<in> set tr \<longrightarrow>
         donep (length files) (i + 1) (i + 1 + 1) p q \<and> inf_ok fs files a tr p q"
    using D(5) d by blast
  show "\<forall>p q q'. (compared tr p q \<or> Inferred p q \<in> set tr) \<and> p < i + 1 \<and> p < q' \<and>
                 q' < length files \<and> live ff (length files) q' \<longrightarrow>
                 compared tr p q' \<or> Inferred p q' \<in> set tr"
  proof (intro allI impI)
    fix p q q'
    assume h: "(compared tr p q \<or> Inferred p q \<in> set tr) \<and> p < i + 1 \<and> p < q' \<and>
                 q' < length files \<and> live ff (length files) q'"
    then have l: "live ff i q'" using lv by blast
    show "compared tr p q' \<or> Inferred p q' \<in> set tr"
    proof (cases "p = i")
      case True
      with h l D(7) show ?thesis by blast
    next
      case False
      with h have "p < i" by simp
      with h l D(6) show ?thesis by blast
    qed
  qed
  show "length files = i + 1 \<longrightarrow>
        (\<forall>q'. i + 1 < q' \<and> q' < i + 1 + 1 \<and> q' < length files \<and> live ff (length files) q' \<longrightarrow>
                 compared tr (i + 1) q' \<or> Inferred (i + 1) q' \<in> set tr)"
    by auto
qed

lemma end_row_fields [simp]:
  "ar (end_row st) = ar st" "fflags (end_row st) = fflags st" "dn (end_row st) = None"
  "retval (end_row st) = (case dn st of None \<Rightarrow> retval st | Some g \<Rightarrow> g # retval st)"
  by (simp_all add: end_row_def split: option.splits)

lemma outer_loop_inv:
  "linv fs files i (i + 1) (length files) st \<Longrightarrow> dn st = None \<Longrightarrow>
   outer_loop fs files sz i st = Inr st' \<Longrightarrow>
   (\<exists>i'. linv fs files i' (i' + 1) (length files) st') \<and> dn st' = None \<and>
   (fflags st', retval st') = base_outer fs files sz i (fflags st, retval st)"
proof (induction fs files sz i st rule: outer_loop.induct)
  case (1 fs files sz i st)
  show ?case
  proof (cases "i + 1 < length files")
    case False
    from "1.prems"(3) False have e: "st' = st"
      by (subst (asm) outer_loop.simps) simp
    have "base_outer fs files sz i (fflags st, retval st) = (fflags st, retval st)"
      using False by (subst base_outer.simps) simp
    with "1.prems"(1,2) e show ?thesis by auto
  next
    case True
    show ?thesis
    proof (cases "fflags st ! i \<noteq> 0")
      case T2: True
      have ol: "outer_loop fs files sz (i + 1) st = Inr st'"
        using "1.prems"(3) True T2 by (subst (asm) outer_loop.simps) simp
      have "linv fs files (i + 1) (i + 1 + 1) (length files) st"
        by (rule inv_row_skip[OF "1.prems"(1)])
      from "1.IH"(1)[OF True T2 this "1.prems"(2) ol]
      have "(\<exists>i'. linv fs files i' (i' + 1) (length files) st') \<and> dn st' = None \<and>
         (fflags st', retval st') = base_outer fs files sz (i + 1) (fflags st, retval st)" .
      moreover have "base_outer fs files sz i (fflags st, retval st)
                       = base_outer fs files sz (i + 1) (fflags st, retval st)"
        using True T2 by (subst base_outer.simps) simp
      ultimately show ?thesis by simp
    next
      case False
      then have fi: "fflags st ! i = 0" by simp
      have "(case inner_loop fs files sz i (i + 1) st of Inl e \<Rightarrow> Inl e
             | Inr st1 \<Rightarrow> outer_loop fs files sz (i + 1) (end_row st1)) = Inr st'"
        using "1.prems"(3) True False by (subst (asm) outer_loop.simps) simp
      then obtain st1 where
        il: "inner_loop fs files sz i (i + 1) st = Inr st1"
        and ol: "outer_loop fs files sz (i + 1) (end_row st1) = Inr st'"
        by (cases "inner_loop fs files sz i (i + 1) st") auto
      have enter: "linv fs files i (i + 1) i st"
        by (rule inv_row_enter[OF "1.prems"(1) fi])
      from inner_loop_inv[OF enter _ _ il] True have
        L: "linv fs files i (length files) i st1" and rv: "retval st1 = retval st"
        and bi: "(fflags st1, dn st1) = base_inner fs files sz i (i + 1) (fflags st, dn st)"
        by simp_all
      have "linv fs files (i + 1) (i + 1 + 1) (length files) (end_row st1)"
        using inv_row_exit[OF L] by simp
      from "1.IH"(2)[OF True False il this _ ol]
      have R: "(\<exists>i'. linv fs files i' (i' + 1) (length files) st') \<and> dn st' = None \<and>
         (fflags st', retval st')
           = base_outer fs files sz (i + 1) (fflags (end_row st1), retval (end_row st1))"
        by simp
      have "base_outer fs files sz i (fflags st, retval st)
              = base_outer fs files sz (i + 1) (fflags (end_row st1), retval (end_row st1))"
        using True fi bi[symmetric] rv "1.prems"(2)
        by (subst base_outer.simps) (simp split: option.splits)
      with R show ?thesis by simp
    qed
  qed
qed

text \<open>
  The inference as the specification words it: scan the previous rows that have recorded
  ledger entries for both columns \<open>i\<close> and \<open>j\<close>; \<open>-1\<close> if such a row holds different
  values, otherwise the largest recorded value (0 if no row constrains it).
\<close>

function spec_scan ::
  "fe list \<Rightarrow> int list \<Rightarrow> event list \<Rightarrow> nat \<Rightarrow> nat \<Rightarrow> nat \<Rightarrow> int \<Rightarrow> int" where
  "spec_scan files a tr i j pr maxToSkip =
     (if pr < i
      then if compared tr pr i \<and> compared tr pr j
           then if cell files a pr i \<noteq> cell files a pr j then -1
                else spec_scan files a tr i j (pr + 1) (max maxToSkip (cell files a pr i))
           else spec_scan files a tr i j (pr + 1) maxToSkip
      else maxToSkip)"
  by pat_completeness auto
termination
  by (relation "measure (\<lambda>(files, a, tr, i, j, pr, m). i - pr)") auto

declare spec_scan.simps [simp del]

lemma spec_scan_neg:
  "\<exists>p. pr \<le> p \<and> p < i \<and> compared tr p i \<and> compared tr p j \<and>
       cell files a p i \<noteq> cell files a p j \<Longrightarrow>
   spec_scan files a tr i j pr m = -1"
proof (induction files a tr i j pr m rule: spec_scan.induct)
  case (1 files a tr i j pr m)
  from "1.prems" obtain p where p: "pr \<le> p" "p < i" "compared tr p i" "compared tr p j"
    "cell files a p i \<noteq> cell files a p j" by blast
  then have lt: "pr < i" by simp
  show ?case
  proof (cases "compared tr pr i \<and> compared tr pr j")
    case True
    show ?thesis
    proof (cases "cell files a pr i \<noteq> cell files a pr j")
      case T2: True
      then show ?thesis using lt True by (subst spec_scan.simps) simp
    next
      case False
      with p have "pr \<noteq> p" by auto
      with p have "\<exists>p. pr + 1 \<le> p \<and> p < i \<and> compared tr p i \<and> compared tr p j \<and>
         cell files a p i \<noteq> cell files a p j" by (intro exI[of _ p]) simp
      from "1.IH"(1)[OF lt True _ this] False
      have "spec_scan files a tr i j (pr + 1) (max m (cell files a pr i)) = -1" by simp
      then show ?thesis using lt True False by (subst spec_scan.simps) simp
    qed
  next
    case False
    with p have "pr \<noteq> p" by auto
    with p have "\<exists>p. pr + 1 \<le> p \<and> p < i \<and> compared tr p i \<and> compared tr p j \<and>
         cell files a p i \<noteq> cell files a p j" by (intro exI[of _ p]) simp
    from "1.IH"(2)[OF lt False this]
    have "spec_scan files a tr i j (pr + 1) m = -1" .
    then show ?thesis using lt False by (subst spec_scan.simps) auto
  qed
qed

lemma spec_scan_val:
  "\<forall>p. pr \<le> p \<and> p < i \<longrightarrow>
        (if compared tr p i \<and> compared tr p j then cell files a p i = cell files a p j
         else cell files a p i = 0) \<Longrightarrow>
   pr \<le> i \<Longrightarrow> m = colmax files a i pr \<Longrightarrow>
   spec_scan files a tr i j pr m = colmax files a i i"
proof (induction files a tr i j pr m rule: spec_scan.induct)
  case (1 files a tr i j pr m)
  show ?case
  proof (cases "pr < i")
    case False
    with "1.prems" show ?thesis by (subst spec_scan.simps) simp
  next
    case lt: True
    have rest: "\<forall>p. pr + 1 \<le> p \<and> p < i \<longrightarrow>
        (if compared tr p i \<and> compared tr p j then cell files a p i = cell files a p j
         else cell files a p i = 0)"
      using "1.prems"(1) by auto
    show ?thesis
    proof (cases "compared tr pr i \<and> compared tr pr j")
      case True
      with "1.prems"(1) lt have eq: "cell files a pr i = cell files a pr j" by auto
      have "max m (cell files a pr i) = colmax files a i (pr + 1)"
        using "1.prems"(3) by simp
      from "1.IH"(1)[OF lt True _ rest _ this] eq lt
      have "spec_scan files a tr i j (pr + 1) (max m (cell files a pr i)) = colmax files a i i"
        by simp
      then show ?thesis using lt True eq by (subst spec_scan.simps) simp
    next
      case False
      with "1.prems"(1) lt have z: "cell files a pr i = 0" by auto
      have "m = colmax files a i (pr + 1)"
        using "1.prems"(3) z colmax_nonneg[of files a i pr] by simp
      from "1.IH"(2)[OF lt False rest _ this] lt
      have "spec_scan files a tr i j (pr + 1) m = colmax files a i i" by simp
      then show ?thesis using lt False by (subst spec_scan.simps) auto
    qed
  qed
qed

lemma init_bstate_guarded:
  "cnt * cnt \<le> INT_MAX \<Longrightarrow>
   init_bstate cnt rv
     = \<lparr>ar = replicate (cnt * cnt) 0, fflags = replicate cnt 0, dn = None, retval = rv, trace = []\<rparr>"
  using int32_id[of "int cnt * int cnt"]
  by (simp add: init_bstate_def flip: of_nat_mult)

lemma init_inv:
  assumes g: "length files * length files \<le> INT_MAX"
  shows "linv fs files 0 (0 + 1) (length files) (init_bstate (length files) rv)"
proof -
  have z: "cell files (replicate (length files * length files) 0) p q = 0"
    if "p < q" "q < length files" for p q
  proof -
    from that have p: "p < length files" by simp
    from cell_in_range[OF p that(2)] idx_cell[OF g p that(2)] show ?thesis
      by (simp add: cell_def)
  qed
  show ?thesis unfolding init_bstate_guarded[OF g]
    by (rule ledger_invI) (simp_all add: compared_def z g)
qed

lemma bucket_run:
  assumes g: "length files * length files \<le> INT_MAX"
    and run: "outer_loop fs files sz 0 (init_bstate (length files) rv) = Inr st"
  obtains i where "linv fs files i (i + 1) (length files) st"
    and "retval st = snd (base_outer fs files sz 0 (replicate (length files) 0, rv))"
    and "fflags st = fst (base_outer fs files sz 0 (replicate (length files) 0, rv))"
proof -
  have d: "dn (init_bstate (length files) rv) = None" by (simp add: init_bstate_def)
  from outer_loop_inv[OF init_inv[OF g] d run]
  obtain i where i: "linv fs files i (i + 1) (length files) st"
    and b: "(fflags st, retval st)
              = base_outer fs files sz 0 (fflags (init_bstate (length files) rv),
                                          retval (init_bstate (length files) rv))"
    by auto
  have "(fflags st, retval st) = base_outer fs files sz 0 (replicate (length files) 0, rv)"
    using b by (simp add: init_bstate_def)
  then have "retval st = snd (base_outer fs files sz 0 (replicate (length files) 0, rv))"
    "fflags st = fst (base_outer fs files sz 0 (replicate (length files) 0, rv))"
    by (metis snd_conv, metis fst_conv)
  with i that show ?thesis by blast
qed

text \<open>
  C1. For a bucket whose count fits the \<^verbatim>\<open>int\<close> arithmetic of the ledger, when the
  resolution completes: every pair skipped by the inference differs under a full
  byte-by-byte comparison, and the scan restricted to rows with recorded entries skips it
  as well; every pair compared from offset \<open>s\<close> agrees on its first \<open>s\<close> bytes, and \<open>s\<close> is
  the value the scan restricted to rows with recorded entries gives; and the chain of
  groups is the one the baseline with full comparisons builds. So the inference neither
  reports a false duplicate nor hides a true one, and reading the entries of never
  compared pairs (which are 0) changes nothing.
\<close>

theorem skip_ahead_inference_sound:
  assumes "length files * length files \<le> INT_MAX"
    and "outer_loop fs files sz 0 (init_bstate (length files) rv) = Inr st"
  shows "(\<forall>i j. Inferred i j \<in> set (trace st) \<longrightarrow>
            \<not> full_compare fs (files ! i) (files ! j) \<and>
            spec_scan files (ar st) (trace st) i j 0 0 = -1) \<and>
         (\<forall>i j s. Comparing i j s \<in> set (trace st) \<longrightarrow>
            s = spec_scan files (ar st) (trace st) i j 0 0 \<and> 0 \<le> s \<and>
            take (nat s) (content fs (name (files ! i)))
              = take (nat s) (content fs (name (files ! j)))) \<and>
         retval st = snd (base_outer fs files sz 0 (replicate (length files) 0, rv))"
proof -
  from assms obtain i0 where inv: "linv fs files i0 (i0 + 1) (length files) st"
    and rv: "retval st = snd (base_outer fs files sz 0 (replicate (length files) 0, rv))"
    by (rule bucket_run)
  note D = ledger_invD[OF inv]
  let ?a = "ar st" and ?tr = "trace st"
  have inf: "\<not> full_compare fs (files ! i) (files ! j) \<and> spec_scan files ?a ?tr i j 0 0 = -1"
    if "Inferred i j \<in> set ?tr" for i j
  proof -
    from D(5) that have io: "inf_ok fs files ?a ?tr i j" by blast
    then have "\<exists>p. 0 \<le> p \<and> p < i \<and> compared ?tr p i \<and> compared ?tr p j \<and>
                   cell files ?a p i \<noteq> cell files ?a p j"
      by (auto simp: inf_ok_def)
    from spec_scan_neg[OF this] io show ?thesis
      by (simp add: inf_ok_def full_compare_def cont_def)
  qed
  have cmp: "s = spec_scan files ?a ?tr i j 0 0 \<and> 0 \<le> s \<and>
            take (nat s) (content fs (name (files ! i)))
              = take (nat s) (content fs (name (files ! j)))"
    if "Comparing i j s \<in> set ?tr" for i j s
  proof -
    from D(4) that have dn: "donep (length files) i0 (i0 + 1) i j"
      and co: "cmp_ok fs files ?a (fflags st) (length files) i j s" by blast+
    from dn have ij: "i < j" "j < length files" by (auto simp: donep_def)
    from co have s: "s = colmax files ?a i i"
      and eq: "\<forall>p'<i. cell files ?a p' i = cell files ?a p' j"
      and nn: "0 \<le> cell files ?a i j"
      and tk: "take (nat (s + cell files ?a i j)) (cont fs files i)
                 = take (nat (s + cell files ?a i j)) (cont fs files j)"
      by (auto simp: cmp_ok_def)
    have rows: "\<forall>p. 0 \<le> p \<and> p < i \<longrightarrow>
        (if compared ?tr p i \<and> compared ?tr p j then cell files ?a p i = cell files ?a p j
         else cell files ?a p i = 0)"
    proof (intro allI impI)
      fix p assume p: "0 \<le> p \<and> p < i"
      show "if compared ?tr p i \<and> compared ?tr p j then cell files ?a p i = cell files ?a p j
         else cell files ?a p i = 0"
      proof (cases "compared ?tr p i")
        case False
        with D(3) p ij have "cell files ?a p i = 0"
          by (metis less_trans)
        with False show ?thesis by simp
      next
        case True
        show ?thesis
        proof (cases "compared ?tr p j")
          case T2: True
          with True eq p show ?thesis by simp
        next
          case False
          with D(3) p ij have "cell files ?a p j = 0" by (metis less_trans)
          with eq p False show ?thesis by simp
        qed
      qed
    qed
    have "spec_scan files ?a ?tr i j 0 0 = colmax files ?a i i"
      by (rule spec_scan_val[OF rows]) simp_all
    moreover have "0 \<le> s" unfolding s by (rule colmax_nonneg)
    moreover have "take (nat s) (cont fs files i) = take (nat s) (cont fs files j)"
    proof -
      have "nat s \<le> nat (s + cell files ?a i j)" using nn by simp
      then have "take (nat s) xs = take (nat s) (take (nat (s + cell files ?a i j)) xs)"
        for xs :: string by (simp add: min_def)
      with tk show ?thesis by metis
    qed
    ultimately show ?thesis using s by (simp add: cont_def)
  qed
  show ?thesis using inf cmp rv by blast
qed

text \<open>
  Concrete buckets of three files of 1025 bytes (one full chunk and one byte). In
  \<open>fs_skip\<close> the files \<open>p1\<close> and \<open>p2\<close> are identical and share the first chunk of \<open>p0\<close>; in
  \<open>fs_inf\<close> the file \<open>p1\<close> differs from \<open>p0\<close> in the first chunk and \<open>p2\<close> in the last
  byte, so the pair \<open>(p1, p2)\<close> is skipped by the inference.
\<close>

lemmas loop_simps = outer_loop.simps inner_loop.simps pair_step_def scan_rows.simps
  cmp_loop.simps end_row_def read_chunk_def BUFSIZE_def found_dups_def addDupNode_def Let_def
  error_exit_def idx_def int32_def

definition bucket3 :: "fe list" where
  "bucket3 = [\<lparr>name = ''p0'', dev = 1, inode = 1\<rparr>, \<lparr>name = ''p1'', dev = 1, inode = 2\<rparr>,
              \<lparr>name = ''p2'', dev = 1, inode = 3\<rparr>]"

definition kb :: "char \<Rightarrow> char \<Rightarrow> string" where
  "kb x y = replicate 1024 x @ [y]"

definition fs_skip :: filesys where
  "fs_skip = \<lparr>content = (\<lambda>p. if p = ''p0'' then kb CHR ''a'' CHR ''x''
                              else kb CHR ''a'' CHR ''y''),
              open_fails = (\<lambda>p. False), seek_fails = (\<lambda>p off. False),
              read_fails = (\<lambda>p pos. False)\<rparr>"

definition st_skip :: bstate where
  "st_skip = \<lparr>ar = [0, 1024, 1024, 0, 0, 1, 0, 0, 0], fflags = [0, 1, 1], dn = None,
              retval = [\<lparr>dsize = 1025, dfiles = [\<lparr>name = ''p2'', dev = 1, inode = 3\<rparr>,
                                                 \<lparr>name = ''p1'', dev = 1, inode = 2\<rparr>]\<rparr>],
              trace = [Comparing 0 1 0, Open ''p0'', Open ''p1'', Read ''p0'' 0, Read ''p1'' 0,
                       Read ''p0'' 1024, Read ''p1'' 1024, Close ''p1'', Close ''p0'',
                       Comparing 0 2 0, Open ''p0'', Open ''p2'', Read ''p0'' 0, Read ''p2'' 0,
                       Read ''p0'' 1024, Read ''p2'' 1024, Close ''p2'', Close ''p0'',
                       Comparing 1 2 1024, Open ''p1'', Open ''p2'', Lseek ''p1'' 1024,
                       Lseek ''p2'' 1024, Read ''p1'' 1024, Read ''p2'' 1024, Read ''p1'' 1025,
                       Read ''p2'' 1025, Close ''p2'', Close ''p1'']\<rparr>"

lemma guard3: "length bucket3 * length bucket3 \<le> INT_MAX"
  by (simp add: bucket3_def INT_MAX_def)

lemma run_skip: "outer_loop fs_skip bucket3 1025 0 (init_bstate (length bucket3) []) = Inr st_skip"
  unfolding init_bstate_guarded[OF guard3]
  by (simp add: bucket3_def loop_simps fs_skip_def kb_def st_skip_def)

text \<open>
  C3 as stated fails: \<open>p1\<close> and \<open>p2\<close> are identical files of 1025 bytes, compared from
  offset 1024 after both matched the first chunk of \<open>p0\<close>; all 1025 bytes are confirmed
  identical, the ledger entry is 1.
\<close>

theorem ledger_prefix_counterexample:
  "outer_loop fs_skip bucket3 1025 0 (init_bstate (length bucket3) []) = Inr st_skip \<and>
   Comparing 1 2 1024 \<in> set (trace st_skip) \<and>
   cont fs_skip bucket3 1 = cont fs_skip bucket3 2 \<and>
   length (cont fs_skip bucket3 1) = 1025 \<and>
   cell bucket3 (ar st_skip) 1 2 = 1"
  by (simp add: run_skip)
     (simp add: st_skip_def cont_def fs_skip_def bucket3_def kb_def cell_def idx_def int32_def)

definition fs_inf :: filesys where
  "fs_inf = \<lparr>content = (\<lambda>p. if p = ''p0'' then kb CHR ''a'' CHR ''x''
                             else if p = ''p1'' then kb CHR ''b'' CHR ''x''
                             else kb CHR ''a'' CHR ''y''),
             open_fails = (\<lambda>p. False), seek_fails = (\<lambda>p off. False),
             read_fails = (\<lambda>p pos. False)\<rparr>"

definition st_inf :: bstate where
  "st_inf = \<lparr>ar = [0, 0, 1024, 0, 0, 0, 0, 0, 0], fflags = [0, 0, 0], dn = None,
             retval = [],
             trace = [Comparing 0 1 0, Open ''p0'', Open ''p1'', Read ''p0'' 0, Read ''p1'' 0,
                      Close ''p1'', Close ''p0'',
                      Comparing 0 2 0, Open ''p0'', Open ''p2'', Read ''p0'' 0, Read ''p2'' 0,
                      Read ''p0'' 1024, Read ''p2'' 1024, Close ''p2'', Close ''p0'',
                      Inferred 1 2]\<rparr>"

lemma run_inf: "outer_loop fs_inf bucket3 1025 0 (init_bstate (length bucket3) []) = Inr st_inf"
  unfolding init_bstate_guarded[OF guard3]
  by (simp add: bucket3_def loop_simps fs_inf_def kb_def st_inf_def)

theorem skip_ahead_inference_sound_witness:
  "outer_loop fs_inf bucket3 1025 0 (init_bstate (length bucket3) []) = Inr st_inf \<and>
   Inferred 1 2 \<in> set (trace st_inf) \<and>
   \<not> full_compare fs_inf (bucket3 ! 1) (bucket3 ! 2) \<and>
   spec_scan bucket3 (ar st_inf) (trace st_inf) 1 2 0 0 = -1 \<and>
   Comparing 0 2 0 \<in> set (trace st_inf) \<and>
   spec_scan bucket3 (ar st_inf) (trace st_inf) 0 2 0 0 = 0"
  using skip_ahead_inference_sound[OF guard3 run_inf] run_inf
  by (simp add: st_inf_def)

text \<open>
  The points of the resolution of a nonzero-size bucket: the head of the loop over the
  rows (\<open>Row i\<close>), the head of the loop over the columns of row \<open>i\<close> (\<open>Col i j\<close>), and the
  head of the chunk loop of the pair \<open>(i, j)\<close> started at offset \<open>s\<close>, with both files at
  position \<open>pos\<close> (\<open>Chunk i j s pos\<close>). \<open>reach fs files sz rv pt st\<close>: the resolution started
  with the chain \<open>rv\<close> is at point \<open>pt\<close> in state \<open>st\<close>. A step of \<open>reach\<close> is a step of the
  loops: \<open>enter_chunks_unfold\<close> and \<open>next_chunk_unfold\<close> say that the chunk points are the
  states of \<open>cmp_loop\<close> inside \<open>pair_step\<close>, and \<open>outer_loop_reach\<close> that the state in which
  \<open>outer_loop\<close> returns is a point.
\<close>

datatype point = Row nat | Col nat nat | Chunk nat nat int nat

inductive reach :: "filesys \<Rightarrow> fe list \<Rightarrow> int \<Rightarrow> dupNode list \<Rightarrow> point \<Rightarrow> bstate \<Rightarrow> bool"
  for fs :: filesys and files :: "fe list" and sz :: int and rv :: "dupNode list" where
  start:
    "2 \<le> length files \<Longrightarrow> sz \<noteq> 0 \<Longrightarrow> length files * length files \<le> INT_MAX \<Longrightarrow>
     reach fs files sz rv (Row 0) (init_bstate (length files) rv)"
| next_row:
    "reach fs files sz rv (Row i) st \<Longrightarrow> i + 1 < length files \<Longrightarrow> fflags st ! i \<noteq> 0 \<Longrightarrow>
     reach fs files sz rv (Row (i + 1)) st"
| enter_row:
    "reach fs files sz rv (Row i) st \<Longrightarrow> i + 1 < length files \<Longrightarrow> fflags st ! i = 0 \<Longrightarrow>
     reach fs files sz rv (Col i (i + 1)) st"
| next_col:
    "reach fs files sz rv (Col i j) st \<Longrightarrow> j < length files \<Longrightarrow> fflags st ! j \<noteq> 0 \<Longrightarrow>
     reach fs files sz rv (Col i (j + 1)) st"
| pair_done:
    "reach fs files sz rv (Col i j) st \<Longrightarrow> j < length files \<Longrightarrow> fflags st ! j = 0 \<Longrightarrow>
     pair_step fs files sz i j st = Inr st' \<Longrightarrow>
     reach fs files sz rv (Col i (j + 1)) st'"
| leave_row:
    "reach fs files sz rv (Col i j) st \<Longrightarrow> \<not> j < length files \<Longrightarrow>
     reach fs files sz rv (Row (i + 1)) (end_row st)"
| enter_chunks:
    "reach fs files sz rv (Col i j) st \<Longrightarrow> j < length files \<Longrightarrow> fflags st ! j = 0 \<Longrightarrow>
     s = scan_rows (length files) (ar st) i j 0 0 \<Longrightarrow> \<not> s < 0 \<Longrightarrow>
     \<not> open_fails fs (name (files ! i)) \<Longrightarrow> \<not> open_fails fs (name (files ! j)) \<Longrightarrow>
     \<not> (s > 0 \<and> (seek_fails fs (name (files ! i)) s \<or> seek_fails fs (name (files ! j)) s)) \<Longrightarrow>
     reach fs files sz rv (Chunk i j s (nat s))
       (st\<lparr>trace := trace st @ [Comparing i j s, Open (name (files ! i)), Open (name (files ! j))]
                       @ (if s > 0 then [Lseek (name (files ! i)) s, Lseek (name (files ! j)) s]
                          else [])\<rparr>)"
| next_chunk:
    "reach fs files sz rv (Chunk i j s pos) st \<Longrightarrow>
     \<not> (read_fails fs (name (files ! i)) pos \<or> read_fails fs (name (files ! j)) pos) \<Longrightarrow>
     read_chunk fs (name (files ! i)) pos = read_chunk fs (name (files ! j)) pos \<Longrightarrow>
     length (read_chunk fs (name (files ! i)) pos) \<noteq> 0 \<Longrightarrow>
     reach fs files sz rv (Chunk i j s (pos + length (read_chunk fs (name (files ! i)) pos)))
       (st\<lparr>ar := (ar st)[idx i (length files) j :=
                       ar st ! idx i (length files) j
                         + int (length (read_chunk fs (name (files ! i)) pos))],
           trace := trace st @ [Read (name (files ! i)) pos, Read (name (files ! j)) pos]\<rparr>)"

code_pred reach .

lemma enter_chunks_unfold:
  assumes "s = scan_rows (length files) (ar st) i j 0 0" "\<not> s < 0"
    "\<not> open_fails fs (name (files ! i))" "\<not> open_fails fs (name (files ! j))"
    "\<not> (s > 0 \<and> (seek_fails fs (name (files ! i)) s \<or> seek_fails fs (name (files ! j)) s))"
  shows "pair_step fs files sz i j st =
     (case cmp_loop fs files sz i j (nat s)
             (st\<lparr>trace := trace st @ [Comparing i j s, Open (name (files ! i)), Open (name (files ! j))]
                       @ (if s > 0 then [Lseek (name (files ! i)) s, Lseek (name (files ! j)) s]
                          else [])\<rparr>) of
        Inl e \<Rightarrow> Inl e
      | Inr st' \<Rightarrow> Inr (st'\<lparr>trace := trace st' @ [Close (name (files ! j)), Close (name (files ! i))]\<rparr>))"
  unfolding pair_step_def Let_def assms(1)[symmetric]
    if_not_P[OF assms(2)] if_not_P[OF assms(3)] if_not_P[OF assms(4)] if_not_P[OF assms(5)]
  by (rule refl)

lemma next_chunk_unfold:
  assumes "\<not> (read_fails fs (name (files ! i)) pos \<or> read_fails fs (name (files ! j)) pos)"
    "read_chunk fs (name (files ! i)) pos = read_chunk fs (name (files ! j)) pos"
    "length (read_chunk fs (name (files ! i)) pos) \<noteq> 0"
  shows "cmp_loop fs files sz i j pos st =
     cmp_loop fs files sz i j (pos + length (read_chunk fs (name (files ! i)) pos))
       (st\<lparr>ar := (ar st)[idx i (length files) j :=
                       ar st ! idx i (length files) j
                         + int (length (read_chunk fs (name (files ! i)) pos))],
           trace := trace st @ [Read (name (files ! i)) pos, Read (name (files ! j)) pos]\<rparr>)"
  using assms by (subst cmp_loop.simps) auto

lemma inner_loop_reach:
  "reach fs files sz rv (Col i j) st \<Longrightarrow> inner_loop fs files sz i j st = Inr st' \<Longrightarrow>
   \<exists>j'. \<not> j' < length files \<and> reach fs files sz rv (Col i j') st'"
proof (induction fs files sz i j st rule: inner_loop.induct)
  case (1 fs files sz i j st)
  show ?case
  proof (cases "j < length files")
    case False
    from "1.prems"(2) False have "st' = st" by (subst (asm) inner_loop.simps) simp
    with "1.prems"(1) False show ?thesis by blast
  next
    case True
    show ?thesis
    proof (cases "fflags st ! j \<noteq> 0")
      case T2: True
      have il: "inner_loop fs files sz i (j + 1) st = Inr st'"
        using "1.prems"(2) True T2 by (subst (asm) inner_loop.simps) simp
      from "1.IH"(1)[OF True T2 next_col[OF "1.prems"(1) True T2] il] show ?thesis .
    next
      case False
      then have fj: "fflags st ! j = 0" by simp
      have "(case pair_step fs files sz i j st of Inl e \<Rightarrow> Inl e
             | Inr st1 \<Rightarrow> inner_loop fs files sz i (j + 1) st1) = Inr st'"
        using "1.prems"(2) True False by (subst (asm) inner_loop.simps) simp
      then obtain st1 where
        ps: "pair_step fs files sz i j st = Inr st1"
        and il: "inner_loop fs files sz i (j + 1) st1 = Inr st'"
        by (cases "pair_step fs files sz i j st") auto
      from "1.IH"(2)[OF True False ps pair_done[OF "1.prems"(1) True fj ps] il] show ?thesis .
    qed
  qed
qed

lemma outer_loop_reach:
  "reach fs files sz rv (Row i) st \<Longrightarrow> outer_loop fs files sz i st = Inr st' \<Longrightarrow>
   \<exists>i'. reach fs files sz rv (Row i') st'"
proof (induction fs files sz i st rule: outer_loop.induct)
  case (1 fs files sz i st)
  show ?case
  proof (cases "i + 1 < length files")
    case False
    from "1.prems"(2) False have "st' = st" by (subst (asm) outer_loop.simps) simp
    with "1.prems"(1) show ?thesis by blast
  next
    case True
    show ?thesis
    proof (cases "fflags st ! i \<noteq> 0")
      case T2: True
      have ol: "outer_loop fs files sz (i + 1) st = Inr st'"
        using "1.prems"(2) True T2 by (subst (asm) outer_loop.simps) simp
      from "1.IH"(1)[OF True T2 next_row[OF "1.prems"(1) True T2] ol] show ?thesis .
    next
      case False
      then have fi: "fflags st ! i = 0" by simp
      have "(case inner_loop fs files sz i (i + 1) st of Inl e \<Rightarrow> Inl e
             | Inr st1 \<Rightarrow> outer_loop fs files sz (i + 1) (end_row st1)) = Inr st'"
        using "1.prems"(2) True False by (subst (asm) outer_loop.simps) simp
      then obtain st1 where
        il: "inner_loop fs files sz i (i + 1) st = Inr st1"
        and ol: "outer_loop fs files sz (i + 1) (end_row st1) = Inr st'"
        by (cases "inner_loop fs files sz i (i + 1) st") auto
      from inner_loop_reach[OF enter_row[OF "1.prems"(1) True fi] il] obtain j' where
        "\<not> j' < length files" "reach fs files sz rv (Col i j') st1" by blast
      then have "reach fs files sz rv (Row (i + 1)) (end_row st1)" by (rule leave_row[rotated])
      from "1.IH"(2)[OF True False il this ol] show ?thesis .
    qed
  qed
qed

text \<open>
  The invariant at the points: the ledger invariant at the heads of the row and column
  loops; inside the chunk loop of the pair \<open>(i, j)\<close>, the state is the one at the head of
  the column loop, with the events of the comparison added and the entry of the pair
  holding the bytes read so far, on which the two files agree.
\<close>

definition chunk_inv ::
  "filesys \<Rightarrow> fe list \<Rightarrow> nat \<Rightarrow> nat \<Rightarrow> int \<Rightarrow> nat \<Rightarrow> bstate \<Rightarrow> bool" where
  "chunk_inv fs files i j s pos st =
     (\<exists>st0. linv fs files i j i st0 \<and> i < j \<and> j < length files \<and> fflags st0 ! j = 0 \<and>
            s = scan_rows (length files) (ar st0) i j 0 0 \<and> \<not> s < 0 \<and> nat s \<le> pos \<and>
            ar st = (ar st0)[idx i (length files) j := int (pos - nat s)] \<and>
            fflags st = fflags st0 \<and>
            (\<exists>rs. trace st = trace st0 @ Comparing i j s # rs \<and> (\<forall>e \<in> set rs. is_sys e)) \<and>
            take (pos - nat s) (drop (nat s) (cont fs files i))
              = take (pos - nat s) (drop (nat s) (cont fs files j)))"

fun pinv :: "filesys \<Rightarrow> fe list \<Rightarrow> point \<Rightarrow> bstate \<Rightarrow> bool" where
  "pinv fs files (Row i) st = linv fs files i (i + 1) (length files) st"
| "pinv fs files (Col i j) st = (i < j \<and> j \<le> length files \<and> linv fs files i j i st)"
| "pinv fs files (Chunk i j s pos) st = chunk_inv fs files i j s pos st"

lemma col_facts:
  assumes inv: "linv fs files i j i st" and ij: "i < j" "j < length files"
  shows "idx i (length files) j < length (ar st)" "\<not> compared (trace st) i j"
    "ar st ! idx i (length files) j = 0"
proof -
  note D = ledger_invD[OF inv]
  from D(1) have g: "length files * length files \<le> INT_MAX"
    and len: "length (ar st) = length files * length files" by simp_all
  have icnt: "i < length files" using ij by simp
  show "idx i (length files) j < length (ar st)"
    using cell_in_range[OF icnt ij(2)] idx_cell[OF g icnt ij(2)] len by simp
  show nc: "\<not> compared (trace st) i j"
  proof
    assume "compared (trace st) i j"
    then obtain s' where "Comparing i j s' \<in> set (trace st)" by (auto simp: compared_iff)
    with D(4) have "donep (length files) i j i j" by blast
    then show False by (simp add: donep_def)
  qed
  from D(3) nc ij have "cell files (ar st) i j = 0" by blast
  then show "ar st ! idx i (length files) j = 0" by (simp add: cell_def)
qed

lemma scan_facts:
  assumes inv: "linv fs files i j i st" and ij: "i < j" "j < length files"
    and s: "s = scan_rows (length files) (ar st) i j 0 0" "\<not> s < 0"
  shows "0 \<le> s" "take (nat s) (cont fs files i) = take (nat s) (cont fs files j)"
proof -
  have neg: "s < 0 \<longleftrightarrow> (\<exists>p<i. cell files (ar st) p i \<noteq> cell files (ar st) p j)"
    unfolding s(1) using scan_rows_neg[of 0 files "ar st" i j 0] by simp
  with s(2) have eq: "\<forall>p<i. cell files (ar st) p i = cell files (ar st) p j" by auto
  have v: "s = colmax files (ar st) i i"
    unfolding s(1) using scan_rows_val[of 0 i files "ar st" j 0] eq by simp
  show "0 \<le> s" using s(2) by simp
  show "take (nat s) (cont fs files i) = take (nat s) (cont fs files j)"
    unfolding v by (rule skip_sound[OF inv ij eq])
qed

lemma reach_inv: "reach fs files sz rv pt st \<Longrightarrow> pinv fs files pt st"
proof (induction rule: reach.induct)
  case start
  then show ?case using init_inv[of files fs rv] by simp
next
  case (next_row i st)
  then show ?case using inv_row_skip[of fs files i "ar st" "fflags st" "trace st"] by simp
next
  case (enter_row i st)
  then show ?case using inv_row_enter[of fs files i "ar st" "fflags st" "trace st"] by simp
next
  case (next_col i j st)
  then show ?case using inv_skip_col[of fs files i j "ar st" "fflags st" "trace st"] by simp
next
  case (pair_done i j st st')
  then have "linv fs files i j i st" "i < j" by simp_all
  from pair_step_inv(1)[OF this pair_done.hyps(2,3,4)] pair_done.hyps(2) \<open>i < j\<close>
  show ?case by simp
next
  case (leave_row i j st)
  from leave_row.IH leave_row.hyps(2) have j: "j = length files"
    and l: "linv fs files i j i st" by auto
  from l have "linv fs files i (length files) i st" unfolding j .
  from inv_row_exit[OF this] show ?case by simp
next
  case (enter_chunks i j st s)
  then have inv: "linv fs files i j i st" and ij: "i < j" "j < length files" by simp_all
  note C = col_facts[OF inv ij]
  let ?st1 = "st\<lparr>trace := trace st @ [Comparing i j s, Open (name (files ! i)), Open (name (files ! j))]
                       @ (if s > 0 then [Lseek (name (files ! i)) s, Lseek (name (files ! j)) s]
                          else [])\<rparr>"
  have a: "ar ?st1 = (ar st)[idx i (length files) j := int (nat s - nat s)]"
    using C(1,3) list_update_same_conv[of "idx i (length files) j" "ar st" 0] by auto
  have t: "\<exists>rs. trace ?st1 = trace st @ Comparing i j s # rs \<and> (\<forall>e \<in> set rs. is_sys e)"
    by (intro exI[of _ "[Open (name (files ! i)), Open (name (files ! j))]
                       @ (if s > 0 then [Lseek (name (files ! i)) s, Lseek (name (files ! j)) s]
                          else [])"]) auto
  have "chunk_inv fs files i j s (nat s) ?st1"
    unfolding chunk_inv_def
    using inv ij enter_chunks.hyps(3,4,5) a t by (intro exI[of _ st]) simp
  then show ?case by simp
next
  case (next_chunk i j s pos st)
  let ?fi = "name (files ! i)" and ?fj = "name (files ! j)"
  let ?n = "length (read_chunk fs ?fi pos)"
  let ?k = "idx i (length files) j"
  let ?st2 = "st\<lparr>ar := (ar st)[?k := ar st ! ?k + int ?n],
                  trace := trace st @ [Read ?fi pos, Read ?fj pos]\<rparr>"
  from next_chunk.IH obtain st0 rs where
    inv: "linv fs files i j i st0" and ij: "i < j" "j < length files"
    and fj: "fflags st0 ! j = 0"
    and s: "s = scan_rows (length files) (ar st0) i j 0 0" "\<not> s < 0" and le: "nat s \<le> pos"
    and a: "ar st = (ar st0)[?k := int (pos - nat s)]"
    and ff: "fflags st = fflags st0"
    and tr: "trace st = trace st0 @ Comparing i j s # rs" "\<forall>e \<in> set rs. is_sys e"
    and ag: "take (pos - nat s) (drop (nat s) (cont fs files i))
              = take (pos - nat s) (drop (nat s) (cont fs files j))"
    by (auto simp: chunk_inv_def)
  note C = col_facts[OF inv ij]
  have "int (pos - nat s) + int ?n = int (pos + ?n - nat s)" using le by simp
  then have a2: "ar ?st2 = (ar st0)[?k := int (pos + ?n - nat s)]"
    using a C(1) by simp
  have t2: "\<exists>rs'. trace ?st2 = trace st0 @ Comparing i j s # rs' \<and> (\<forall>e \<in> set rs'. is_sys e)"
    using tr by (intro exI[of _ "rs @ [Read ?fi pos, Read ?fj pos]"]) simp
  have ci: "take ?n (drop pos (cont fs files i)) = read_chunk fs ?fi pos"
    by (simp add: read_chunk_def cont_def min_def)
  have cj: "take ?n (drop pos (cont fs files j)) = read_chunk fs ?fj pos"
    unfolding next_chunk.hyps(3) by (simp add: read_chunk_def cont_def min_def)
  have sp: "pos + ?n - nat s = (pos - nat s) + ?n" "nat s + (pos - nat s) = pos"
    using le by simp_all
  have ag2: "take (pos + ?n - nat s) (drop (nat s) (cont fs files i))
              = take (pos + ?n - nat s) (drop (nat s) (cont fs files j))"
    unfolding sp(1) take_chunk_split sp(2) using ag ci cj next_chunk.hyps(3) by simp
  have "chunk_inv fs files i j s (pos + ?n) ?st2"
    unfolding chunk_inv_def
    using inv ij fj s le a2 ff t2 ag2 by (intro exI[of _ st0]) simp
  then show ?case by simp
qed

fun in_progress :: "point \<Rightarrow> nat \<Rightarrow> nat \<Rightarrow> bool" where
  "in_progress (Chunk i' j' s pos) i j = (i' = i \<and> j' = j)"
| "in_progress _ i j = False"

lemma cmp_ok_entry:
  assumes "cmp_ok fs files a ff r p q s"
  shows "0 \<le> s \<and> 0 \<le> cell files a p q \<and>
         take (nat (s + cell files a p q)) (cont fs files p)
           = take (nat (s + cell files a p q)) (cont fs files q) \<and>
         ((cont fs files p = cont fs files q \<and>
           cell files a p q = int (length (drop (nat s) (cont fs files p)))) \<or>
          (int BUFSIZE dvd cell files a p q \<and>
           read_chunk fs (name (files ! p)) (nat (s + cell files a p q))
             \<noteq> read_chunk fs (name (files ! q)) (nat (s + cell files a p q))))"
proof -
  from assms have "s = colmax files a p p" by (simp add: cmp_ok_def)
  then have "0 \<le> s" by (simp add: colmax_nonneg)
  with assms show ?thesis unfolding cmp_ok_def by blast
qed

lemma linv_entries:
  assumes "linv fs files i j r st" "p < q" "q < length files"
  shows "\<not> compared (trace st) p q \<longrightarrow> cell files (ar st) p q = 0"
    and "Comparing p q s \<in> set (trace st) \<longrightarrow>
         0 \<le> s \<and> 0 \<le> cell files (ar st) p q \<and>
         take (nat (s + cell files (ar st) p q)) (cont fs files p)
           = take (nat (s + cell files (ar st) p q)) (cont fs files q) \<and>
         ((cont fs files p = cont fs files q \<and>
           cell files (ar st) p q = int (length (drop (nat s) (cont fs files p)))) \<or>
          (int BUFSIZE dvd cell files (ar st) p q \<and>
           read_chunk fs (name (files ! p)) (nat (s + cell files (ar st) p q))
             \<noteq> read_chunk fs (name (files ! q)) (nat (s + cell files (ar st) p q))))"
proof -
  note D = ledger_invD[OF assms(1)]
  from D(3) assms(2,3) show "\<not> compared (trace st) p q \<longrightarrow> cell files (ar st) p q = 0"
    by blast
  show "Comparing p q s \<in> set (trace st) \<longrightarrow>
         0 \<le> s \<and> 0 \<le> cell files (ar st) p q \<and>
         take (nat (s + cell files (ar st) p q)) (cont fs files p)
           = take (nat (s + cell files (ar st) p q)) (cont fs files q) \<and>
         ((cont fs files p = cont fs files q \<and>
           cell files (ar st) p q = int (length (drop (nat s) (cont fs files p)))) \<or>
          (int BUFSIZE dvd cell files (ar st) p q \<and>
           read_chunk fs (name (files ! p)) (nat (s + cell files (ar st) p q))
             \<noteq> read_chunk fs (name (files ! q)) (nat (s + cell files (ar st) p q))))"
  proof
    assume "Comparing p q s \<in> set (trace st)"
    with D(4) have "cmp_ok fs files (ar st) (fflags st) r p q s" by blast
    then show "0 \<le> s \<and> 0 \<le> cell files (ar st) p q \<and>
         take (nat (s + cell files (ar st) p q)) (cont fs files p)
           = take (nat (s + cell files (ar st) p q)) (cont fs files q) \<and>
         ((cont fs files p = cont fs files q \<and>
           cell files (ar st) p q = int (length (drop (nat s) (cont fs files p)))) \<or>
          (int BUFSIZE dvd cell files (ar st) p q \<and>
           read_chunk fs (name (files ! p)) (nat (s + cell files (ar st) p q))
             \<noteq> read_chunk fs (name (files ! q)) (nat (s + cell files (ar st) p q))))"
      by (rule cmp_ok_entry)
  qed
qed

lemma chunk_entries:
  assumes c: "chunk_inv fs files i j s pos st" and pq: "p < q" "q < length files"
  shows "\<not> compared (trace st) p q \<longrightarrow> cell files (ar st) p q = 0"
    and "Comparing p q s' \<in> set (trace st) \<longrightarrow>
         0 \<le> s' \<and> 0 \<le> cell files (ar st) p q \<and>
         take (nat (s' + cell files (ar st) p q)) (cont fs files p)
           = take (nat (s' + cell files (ar st) p q)) (cont fs files q) \<and>
         (if p = i \<and> q = j then s' = s \<and> pos = nat (s' + cell files (ar st) p q)
          else (cont fs files p = cont fs files q \<and>
                cell files (ar st) p q = int (length (drop (nat s') (cont fs files p)))) \<or>
               (int BUFSIZE dvd cell files (ar st) p q \<and>
                read_chunk fs (name (files ! p)) (nat (s' + cell files (ar st) p q))
                  \<noteq> read_chunk fs (name (files ! q)) (nat (s' + cell files (ar st) p q))))"
proof -
  from c obtain st0 rs where
    inv: "linv fs files i j i st0" and ij: "i < j" "j < length files"
    and s: "s = scan_rows (length files) (ar st0) i j 0 0" "\<not> s < 0" and le: "nat s \<le> pos"
    and a: "ar st = (ar st0)[idx i (length files) j := int (pos - nat s)]"
    and tr: "trace st = trace st0 @ Comparing i j s # rs" "\<forall>e \<in> set rs. is_sys e"
    and ag: "take (pos - nat s) (drop (nat s) (cont fs files i))
              = take (pos - nat s) (drop (nat s) (cont fs files j))"
    by (auto simp: chunk_inv_def)
  note C = col_facts[OF inv ij]
  note S = scan_facts[OF inv ij s]
  note D = ledger_invD[OF inv]
  from D(1) have g: "length files * length files \<le> INT_MAX" by simp
  have icnt: "i < length files" and pcnt: "p < length files" using ij pq by simp_all
  have cells: "cell files (ar st) p q
                 = (if p = i \<and> q = j then int (pos - nat s) else cell files (ar st0) p q)"
    unfolding a by (rule cell_update[OF g pcnt pq(2) icnt ij(2) C(1)])
  have nsys: "Comparing p q s' \<notin> set rs" using tr(2) by (metis is_sys.simps(2))
  have ev: "Comparing p q s' \<in> set (trace st) \<longleftrightarrow>
              Comparing p q s' \<in> set (trace st0) \<or> (p = i \<and> q = j \<and> s' = s)" for s'
  proof -
    have "Comparing p q s' \<notin> set rs" using tr(2) by (metis is_sys.simps(2))
    then show ?thesis unfolding tr(1) by auto
  qed
  have cmp: "compared (trace st) p q \<longleftrightarrow> compared (trace st0) p q \<or> (p = i \<and> q = j)"
    unfolding compared_iff ev by blast
  have old: "\<not> (p = i \<and> q = j)" if "Comparing p q s' \<in> set (trace st0)"
    using that C(2) by (auto simp: compared_iff)
  show "\<not> compared (trace st) p q \<longrightarrow> cell files (ar st) p q = 0"
    using linv_entries(1)[OF inv pq] by (auto simp: cmp cells)
  show "Comparing p q s' \<in> set (trace st) \<longrightarrow>
         0 \<le> s' \<and> 0 \<le> cell files (ar st) p q \<and>
         take (nat (s' + cell files (ar st) p q)) (cont fs files p)
           = take (nat (s' + cell files (ar st) p q)) (cont fs files q) \<and>
         (if p = i \<and> q = j then s' = s \<and> pos = nat (s' + cell files (ar st) p q)
          else (cont fs files p = cont fs files q \<and>
                cell files (ar st) p q = int (length (drop (nat s') (cont fs files p)))) \<or>
               (int BUFSIZE dvd cell files (ar st) p q \<and>
                read_chunk fs (name (files ! p)) (nat (s' + cell files (ar st) p q))
                  \<noteq> read_chunk fs (name (files ! q)) (nat (s' + cell files (ar st) p q))))"
  proof
    assume e: "Comparing p q s' \<in> set (trace st)"
    show "0 \<le> s' \<and> 0 \<le> cell files (ar st) p q \<and>
         take (nat (s' + cell files (ar st) p q)) (cont fs files p)
           = take (nat (s' + cell files (ar st) p q)) (cont fs files q) \<and>
         (if p = i \<and> q = j then s' = s \<and> pos = nat (s' + cell files (ar st) p q)
          else (cont fs files p = cont fs files q \<and>
                cell files (ar st) p q = int (length (drop (nat s') (cont fs files p)))) \<or>
               (int BUFSIZE dvd cell files (ar st) p q \<and>
                read_chunk fs (name (files ! p)) (nat (s' + cell files (ar st) p q))
                  \<noteq> read_chunk fs (name (files ! q)) (nat (s' + cell files (ar st) p q))))"
    proof (cases "p = i \<and> q = j")
      case True
      with e ev[of s'] old have s': "s' = s" by blast
      have cl: "cell files (ar st) p q = int (pos - nat s)" using True cells by simp
      have ps: "nat (s + int (pos - nat s)) = pos" using le S(1) by simp
      have "take (nat s + (pos - nat s)) (cont fs files i) = take (nat s + (pos - nat s)) (cont fs files j)"
        by (rule take_prefix_extend[OF S(2) ag])
      then have "take pos (cont fs files i) = take pos (cont fs files j)" using le by simp
      then show ?thesis using True s' cl ps S(1) by simp
    next
      case False
      with e ev[of s'] have e0: "Comparing p q s' \<in> set (trace st0)" by blast
      have same: "cell files (ar st) p q = cell files (ar st0) p q"
        unfolding cells if_not_P[OF False] by (rule refl)
      from linv_entries(2)[OF inv pq, where s = s'] e0 show ?thesis
        unfolding same if_not_P[OF False] by blast
    qed
  qed
qed

text \<open>
  C3 (amended). At every point of the resolution of a nonzero-size bucket, for \<open>i < j\<close>:
  the entry \<open>ar[i][j]\<close> of a pair that has not been compared is 0, so it is written only
  when the pair is compared; and the entry of a pair compared from the skip-ahead offset
  \<open>s\<close> is the number of bytes confirmed identical so far from \<open>s\<close> on, without the skipped
  prefix: the files agree on their first \<open>s + ar[i][j]\<close> bytes; while the chunk loop of
  the pair is running the entry is the distance from \<open>s\<close> to the current position; when
  it is over, either the files are identical and the entry is the number of bytes from
  \<open>s\<close> to the end, or the entry is a whole number of chunks and the next chunk differs.
\<close>

theorem ledger_counts_from_skip_offset:
  assumes "reach fs files sz rv pt st"
  shows "\<forall>i j. i < j \<and> j < length files \<longrightarrow>
           (\<not> compared (trace st) i j \<longrightarrow> cell files (ar st) i j = 0) \<and>
           (\<forall>s. Comparing i j s \<in> set (trace st) \<longrightarrow>
              0 \<le> s \<and> 0 \<le> cell files (ar st) i j \<and>
              take (nat (s + cell files (ar st) i j)) (cont fs files i)
                = take (nat (s + cell files (ar st) i j)) (cont fs files j) \<and>
              (if in_progress pt i j
               then pt = Chunk i j s (nat (s + cell files (ar st) i j))
               else (cont fs files i = cont fs files j \<and>
                     cell files (ar st) i j = int (length (drop (nat s) (cont fs files i)))) \<or>
                    (int BUFSIZE dvd cell files (ar st) i j \<and>
                     read_chunk fs (name (files ! i)) (nat (s + cell files (ar st) i j))
                       \<noteq> read_chunk fs (name (files ! j)) (nat (s + cell files (ar st) i j)))))"
proof (intro allI impI)
  fix i j assume "i < j \<and> j < length files"
  then have ij: "i < j" "j < length files" by simp_all
  from reach_inv[OF assms] have P: "pinv fs files pt st" .
  show "(\<not> compared (trace st) i j \<longrightarrow> cell files (ar st) i j = 0) \<and>
           (\<forall>s. Comparing i j s \<in> set (trace st) \<longrightarrow>
              0 \<le> s \<and> 0 \<le> cell files (ar st) i j \<and>
              take (nat (s + cell files (ar st) i j)) (cont fs files i)
                = take (nat (s + cell files (ar st) i j)) (cont fs files j) \<and>
              (if in_progress pt i j
               then pt = Chunk i j s (nat (s + cell files (ar st) i j))
               else (cont fs files i = cont fs files j \<and>
                     cell files (ar st) i j = int (length (drop (nat s) (cont fs files i)))) \<or>
                    (int BUFSIZE dvd cell files (ar st) i j \<and>
                     read_chunk fs (name (files ! i)) (nat (s + cell files (ar st) i j))
                       \<noteq> read_chunk fs (name (files ! j)) (nat (s + cell files (ar st) i j)))))"
  proof (cases pt)
    case (Row r)
    with P have "linv fs files r (r + 1) (length files) st" by simp
    from linv_entries[OF this ij] Row show ?thesis by simp
  next
    case (Col r c)
    with P have "linv fs files r c r st" by simp
    from linv_entries[OF this ij] Col show ?thesis by simp
  next
    case (Chunk i' j' s' pos)
    with P have c: "chunk_inv fs files i' j' s' pos st" by simp
    have ip: "in_progress pt i j \<longleftrightarrow> i = i' \<and> j = j'" using Chunk by auto
    show ?thesis
    proof (intro conjI allI impI)
      assume "\<not> compared (trace st) i j"
      with chunk_entries(1)[OF c ij] show "cell files (ar st) i j = 0" by simp
    next
      fix s assume e: "Comparing i j s \<in> set (trace st)"
      note E = chunk_entries(2)[OF c ij, where s' = s, THEN mp, OF e]
      from E show "0 \<le> s" "0 \<le> cell files (ar st) i j"
        "take (nat (s + cell files (ar st) i j)) (cont fs files i)
           = take (nat (s + cell files (ar st) i j)) (cont fs files j)" by simp_all
      show "if in_progress pt i j
               then pt = Chunk i j s (nat (s + cell files (ar st) i j))
               else (cont fs files i = cont fs files j \<and>
                     cell files (ar st) i j = int (length (drop (nat s) (cont fs files i)))) \<or>
                    (int BUFSIZE dvd cell files (ar st) i j \<and>
                     read_chunk fs (name (files ! i)) (nat (s + cell files (ar st) i j))
                       \<noteq> read_chunk fs (name (files ! j)) (nat (s + cell files (ar st) i j)))"
      proof (cases "i = i' \<and> j = j'")
        case True
        with E have "s = s'" "pos = nat (s + cell files (ar st) i j)" by simp_all
        with True Chunk have "pt = Chunk i j s (nat (s + cell files (ar st) i j))" by simp
        then show ?thesis unfolding ip if_P[OF True] .
      next
        case False
        with E have "(cont fs files i = cont fs files j \<and>
                     cell files (ar st) i j = int (length (drop (nat s) (cont fs files i)))) \<or>
                    (int BUFSIZE dvd cell files (ar st) i j \<and>
                     read_chunk fs (name (files ! i)) (nat (s + cell files (ar st) i j))
                       \<noteq> read_chunk fs (name (files ! j)) (nat (s + cell files (ar st) i j)))"
          by simp
        then show ?thesis unfolding ip if_not_P[OF False] .
      qed
    qed
  qed
qed

text \<open>
  Three points of the resolution of the bucket of \<open>fs_skip\<close>: after the comparison of
  \<open>(p0, p1)\<close>, after row 0, and inside the chunk loop of \<open>(p1, p2)\<close>, which started at
  offset 1024 and has read and matched the last byte.
\<close>

definition st_first :: bstate where
  "st_first = \<lparr>ar = [0, 1024, 0, 0, 0, 0, 0, 0, 0], fflags = [0, 0, 0], dn = None, retval = [],
               trace = [Comparing 0 1 0, Open ''p0'', Open ''p1'', Read ''p0'' 0, Read ''p1'' 0,
                        Read ''p0'' 1024, Read ''p1'' 1024, Close ''p1'', Close ''p0'']\<rparr>"

definition st_row :: bstate where
  "st_row = \<lparr>ar = [0, 1024, 1024, 0, 0, 0, 0, 0, 0], fflags = [0, 0, 0], dn = None, retval = [],
             trace = [Comparing 0 1 0, Open ''p0'', Open ''p1'', Read ''p0'' 0, Read ''p1'' 0,
                      Read ''p0'' 1024, Read ''p1'' 1024, Close ''p1'', Close ''p0'',
                      Comparing 0 2 0, Open ''p0'', Open ''p2'', Read ''p0'' 0, Read ''p2'' 0,
                      Read ''p0'' 1024, Read ''p2'' 1024, Close ''p2'', Close ''p0'']\<rparr>"

definition st_mid :: bstate where
  "st_mid = \<lparr>ar = [0, 1024, 1024, 0, 0, 1, 0, 0, 0], fflags = [0, 0, 0], dn = None, retval = [],
             trace = [Comparing 0 1 0, Open ''p0'', Open ''p1'', Read ''p0'' 0, Read ''p1'' 0,
                      Read ''p0'' 1024, Read ''p1'' 1024, Close ''p1'', Close ''p0'',
                      Comparing 0 2 0, Open ''p0'', Open ''p2'', Read ''p0'' 0, Read ''p2'' 0,
                      Read ''p0'' 1024, Read ''p2'' 1024, Close ''p2'', Close ''p0'',
                      Comparing 1 2 1024, Open ''p1'', Open ''p2'', Lseek ''p1'' 1024,
                      Lseek ''p2'' 1024, Read ''p1'' 1024, Read ''p2'' 1024]\<rparr>"

lemma len3: "length bucket3 = 3"
  by (simp add: bucket3_def)

lemma reach_first: "reach fs_skip bucket3 1025 [] (Col 0 2) st_first"
proof -
  have r0: "reach fs_skip bucket3 1025 [] (Row 0) (init_bstate (length bucket3) [])"
    by (rule reach.start) (simp_all add: len3 INT_MAX_def)
  have "reach fs_skip bucket3 1025 [] (Col 0 (0 + 1)) (init_bstate (length bucket3) [])"
    by (rule reach.enter_row[OF r0]) (simp_all add: len3 init_bstate_def)
  then have r1: "reach fs_skip bucket3 1025 [] (Col 0 1) (init_bstate (length bucket3) [])"
    by simp
  have p: "pair_step fs_skip bucket3 1025 0 1 (init_bstate (length bucket3) []) = Inr st_first"
    unfolding init_bstate_guarded[OF guard3]
    by (simp add: bucket3_def loop_simps fs_skip_def kb_def st_first_def)
  have "reach fs_skip bucket3 1025 [] (Col 0 (1 + 1)) st_first"
    by (rule reach.pair_done[OF r1 _ _ p]) (simp_all add: len3 init_bstate_def)
  then show ?thesis by (simp add: numeral_2_eq_2)
qed

lemma reach_mid: "reach fs_skip bucket3 1025 [] (Chunk 1 2 1024 1025) st_mid"
proof -
  have p: "pair_step fs_skip bucket3 1025 0 2 st_first = Inr st_row"
    by (simp add: bucket3_def loop_simps fs_skip_def kb_def st_first_def st_row_def)
  have "reach fs_skip bucket3 1025 [] (Col 0 (2 + 1)) st_row"
    by (rule reach.pair_done[OF reach_first _ _ p]) (simp_all add: len3 st_first_def)
  then have r3: "reach fs_skip bucket3 1025 [] (Col 0 3) st_row" by simp
  have "reach fs_skip bucket3 1025 [] (Row (0 + 1)) (end_row st_row)"
    by (rule reach.leave_row[OF r3]) (simp add: len3)
  then have r4: "reach fs_skip bucket3 1025 [] (Row 1) st_row"
    by (simp add: end_row_def st_row_def)
  have "reach fs_skip bucket3 1025 [] (Col 1 (1 + 1)) st_row"
    by (rule reach.enter_row[OF r4]) (simp_all add: len3 st_row_def)
  then have r5: "reach fs_skip bucket3 1025 [] (Col 1 2) st_row"
    by (simp add: numeral_2_eq_2)
  have s: "1024 = scan_rows (length bucket3) (ar st_row) 1 2 0 0"
    by (simp add: bucket3_def st_row_def scan_rows.simps idx_def int32_def)
  let ?st_c = "st_row\<lparr>trace := trace st_row @ [Comparing 1 2 1024, Open (name (bucket3 ! 1)),
                          Open (name (bucket3 ! 2))]
                        @ (if (1024::int) > 0 then [Lseek (name (bucket3 ! 1)) 1024,
                                                    Lseek (name (bucket3 ! 2)) 1024] else [])\<rparr>"
  have "reach fs_skip bucket3 1025 [] (Chunk 1 2 1024 (nat 1024)) ?st_c"
    by (rule reach.enter_chunks[OF r5 _ _ s])
       (simp_all add: len3 st_row_def fs_skip_def)
  then have r6: "reach fs_skip bucket3 1025 [] (Chunk 1 2 1024 1024) ?st_c" by simp
  have c: "read_chunk fs_skip (name (bucket3 ! 1)) 1024 = ''y''"
    "read_chunk fs_skip (name (bucket3 ! 2)) 1024 = ''y''"
    by (simp_all add: read_chunk_def fs_skip_def bucket3_def kb_def BUFSIZE_def)
  have "reach fs_skip bucket3 1025 []
          (Chunk 1 2 1024 (1024 + length (read_chunk fs_skip (name (bucket3 ! 1)) 1024)))
          (?st_c\<lparr>ar := (ar ?st_c)[idx 1 (length bucket3) 2 :=
                       ar ?st_c ! idx 1 (length bucket3) 2
                         + int (length (read_chunk fs_skip (name (bucket3 ! 1)) 1024))],
           trace := trace ?st_c @ [Read (name (bucket3 ! 1)) 1024, Read (name (bucket3 ! 2)) 1024]\<rparr>)"
  proof (rule reach.next_chunk[OF r6])
    show "\<not> (read_fails fs_skip (name (bucket3 ! 1)) 1024 \<or>
             read_fails fs_skip (name (bucket3 ! 2)) 1024)"
      by (simp add: fs_skip_def)
    show "read_chunk fs_skip (name (bucket3 ! 1)) 1024
            = read_chunk fs_skip (name (bucket3 ! 2)) 1024"
      unfolding c by (rule refl)
    show "length (read_chunk fs_skip (name (bucket3 ! 1)) 1024) \<noteq> 0"
      unfolding c by simp
  qed
  moreover have "?st_c\<lparr>ar := (ar ?st_c)[idx 1 (length bucket3) 2 :=
                       ar ?st_c ! idx 1 (length bucket3) 2
                         + int (length (read_chunk fs_skip (name (bucket3 ! 1)) 1024))],
           trace := trace ?st_c @ [Read (name (bucket3 ! 1)) 1024, Read (name (bucket3 ! 2)) 1024]\<rparr>
        = st_mid"
    unfolding c by (simp add: st_row_def st_mid_def bucket3_def idx_def int32_def)
  ultimately show ?thesis unfolding c by simp
qed

theorem ledger_counts_from_skip_offset_witness:
  "reach fs_skip bucket3 1025 [] (Chunk 1 2 1024 1025) st_mid \<and>
   ((1::nat) < 2 \<and> 2 < length bucket3) \<and>
   Comparing 1 2 1024 \<in> set (trace st_mid) \<and> in_progress (Chunk 1 2 1024 1025) 1 2 \<and>
   cell bucket3 (ar st_mid) 1 2 = 1 \<and>
   Chunk 1 2 1024 1025 = Chunk 1 2 1024 (nat (1024 + cell bucket3 (ar st_mid) 1 2)) \<and>
   take 1025 (cont fs_skip bucket3 1) = take 1025 (cont fs_skip bucket3 2) \<and>
   reach fs_skip bucket3 1025 [] (Col 0 2) st_first \<and>
   \<not> compared (trace st_first) 1 2 \<and> cell bucket3 (ar st_first) 1 2 = 0 \<and>
   ((0::nat) < 1 \<and> 1 < length bucket3) \<and>
   Comparing 0 1 0 \<in> set (trace st_first) \<and> \<not> in_progress (Col 0 2) 0 1 \<and>
   cell bucket3 (ar st_first) 0 1 = 1024 \<and>
   read_chunk fs_skip (name (bucket3 ! 0)) 1024 \<noteq> read_chunk fs_skip (name (bucket3 ! 1)) 1024"
  using ledger_counts_from_skip_offset[OF reach_mid] ledger_counts_from_skip_offset[OF reach_first]
    reach_mid reach_first
  by (simp add: st_mid_def st_first_def cont_def fs_skip_def bucket3_def kb_def cell_def
        compared_def idx_def int32_def read_chunk_def BUFSIZE_def)

section \<open>Groups: identical files together, differing files apart\<close>

text \<open>
  The result of the baseline in closed form. Two files belong together when their contents
  are equal. \<open>seen fs files i k\<close>: a file before position \<open>i\<close> has the content of file \<open>k\<close>;
  \<open>later_twin fs files i j\<close>: a file strictly between \<open>i\<close> and \<open>j\<close> has the content of file
  \<open>i\<close>. \<open>klass fs files p j\<close> lists the positions from \<open>p\<close> up to \<open>j\<close> that hold the content of
  file \<open>p\<close>, and \<open>group_upto\<close> is the group that the row \<open>p\<close> has built when its inner loop
  reaches column \<open>j\<close>: \<^verbatim>\<open>addDupNode\<close> puts each file in front, so the group lists the class
  backwards. \<open>groups_upto fs files sz i\<close> is the chain built by the rows below \<open>i\<close>: one group
  for every row that holds the first file of its class and has a later twin.
\<close>

definition seen :: "filesys \<Rightarrow> fe list \<Rightarrow> nat \<Rightarrow> nat \<Rightarrow> bool" where
  "seen fs files i k = (\<exists>p<i. cont fs files p = cont fs files k)"

definition twin :: "filesys \<Rightarrow> fe list \<Rightarrow> nat \<Rightarrow> bool" where
  "twin fs files k = (\<exists>p<length files. p \<noteq> k \<and> cont fs files p = cont fs files k)"

definition later_twin :: "filesys \<Rightarrow> fe list \<Rightarrow> nat \<Rightarrow> nat \<Rightarrow> bool" where
  "later_twin fs files i j = (\<exists>q. i < q \<and> q < j \<and> cont fs files q = cont fs files i)"

definition klass :: "filesys \<Rightarrow> fe list \<Rightarrow> nat \<Rightarrow> nat \<Rightarrow> nat list" where
  "klass fs files p j = filter (\<lambda>k. cont fs files k = cont fs files p) [p..<j]"

definition group_upto :: "filesys \<Rightarrow> fe list \<Rightarrow> int \<Rightarrow> nat \<Rightarrow> nat \<Rightarrow> dupNode" where
  "group_upto fs files sz p j =
     \<lparr>dsize = sint (word_of_int sz :: 32 word), dfiles = map ((!) files) (rev (klass fs files p j))\<rparr>"

fun groups_upto :: "filesys \<Rightarrow> fe list \<Rightarrow> int \<Rightarrow> nat \<Rightarrow> dupNode list" where
  "groups_upto fs files sz 0 = []"
| "groups_upto fs files sz (Suc i) =
     (if \<not> seen fs files i i \<and> later_twin fs files i (length files)
      then [group_upto fs files sz i (length files)] else [])
     @ groups_upto fs files sz i"

definition flagged_at :: "filesys \<Rightarrow> fe list \<Rightarrow> nat \<Rightarrow> nat \<Rightarrow> nat \<Rightarrow> bool" where
  "flagged_at fs files i j k =
     (if k < i then twin fs files k
      else if k = i then later_twin fs files i j
      else if k < j then seen fs files i k \<or> cont fs files k = cont fs files i
      else seen fs files i k)"

definition inner_ok ::
  "filesys \<Rightarrow> fe list \<Rightarrow> int \<Rightarrow> nat \<Rightarrow> nat \<Rightarrow> int list \<times> dupNode option \<Rightarrow> bool" where
  "inner_ok fs files sz i j fd =
     (length (fst fd) = length files \<and>
      (\<forall>k<length files. (fst fd ! k \<noteq> 0) = flagged_at fs files i j k) \<and>
      snd fd = (if later_twin fs files i j then Some (group_upto fs files sz i j) else None))"

lemma klass_Suc:
  "p \<le> j \<Longrightarrow> klass fs files p (Suc j) =
     klass fs files p j @ (if cont fs files j = cont fs files p then [j] else [])"
  by (simp add: klass_def)

lemma klass_no_twin:
  "i < j \<Longrightarrow> \<not> later_twin fs files i j \<Longrightarrow> klass fs files i j = [i]"
proof (induction j)
  case 0
  then show ?case by simp
next
  case (Suc j)
  show ?case
  proof (cases "i = j")
    case True
    then show ?thesis by (simp add: klass_def)
  next
    case False
    with Suc.prems have ij: "i < j" by simp
    have "\<not> later_twin fs files i j" using Suc.prems(2) by (auto simp: later_twin_def)
    from Suc.IH[OF ij this] have k: "klass fs files i j = [i]" .
    have "cont fs files j \<noteq> cont fs files i"
      using Suc.prems(2) ij by (auto simp: later_twin_def)
    then show ?thesis using k ij by (simp add: klass_Suc)
  qed
qed

lemma later_twin_Suc:
  "later_twin fs files i (Suc j) \<longleftrightarrow>
     later_twin fs files i j \<or> (i < j \<and> cont fs files j = cont fs files i)"
  by (auto simp: later_twin_def less_Suc_eq)

lemma base_pair_ok:
  assumes ok: "inner_ok fs files sz i j fd" and lead: "\<not> seen fs files i i"
    and ij: "i < j" "j < length files" and fj: "fst fd ! j = 0"
  shows "inner_ok fs files sz i (Suc j) (base_pair fs files sz i j fd)"
proof -
  obtain ff d where fd: "fd = (ff, d)" by (cases fd)
  from ok fd have len: "length ff = length files"
    and fl: "\<And>k. k < length files \<Longrightarrow> (ff ! k \<noteq> 0) = flagged_at fs files i j k"
    and d: "d = (if later_twin fs files i j then Some (group_upto fs files sz i j) else None)"
    by (simp_all add: inner_ok_def)
  have fc: "full_compare fs (files ! i) (files ! j) \<longleftrightarrow> cont fs files j = cont fs files i"
    by (auto simp: full_compare_def cont_def)
  have icnt: "i < length files" using ij by simp
  have fi: "(ff ! i \<noteq> 0) = later_twin fs files i j" using fl[OF icnt] by (simp add: flagged_at_def)
  show ?thesis
  proof (cases "cont fs files j = cont fs files i")
    case False
    have "flagged_at fs files i (Suc j) k = flagged_at fs files i j k" if "k < length files" for k
      using False fl[OF ij(2)] fj fd ij
      by (auto simp: flagged_at_def later_twin_Suc less_Suc_eq)
    moreover have "later_twin fs files i (Suc j) = later_twin fs files i j"
      using False by (simp add: later_twin_Suc)
    moreover have "group_upto fs files sz i (Suc j) = group_upto fs files sz i j"
      using False ij by (simp add: group_upto_def klass_Suc)
    ultimately show ?thesis using False fc fd len fl d
      by (simp add: base_pair_def inner_ok_def)
  next
    case True
    have lt: "later_twin fs files i (Suc j)" using True ij by (simp add: later_twin_Suc)
    have flags: "(ff[i := 1, j := 1] ! k \<noteq> 0) = flagged_at fs files i (Suc j) k"
      if "k < length files" for k
    proof -
      consider "k = i" | "k = j" | "k \<noteq> i" "k \<noteq> j" by blast
      then show ?thesis
      proof cases
        case 1
        then show ?thesis using len ij lt by (simp add: flagged_at_def)
      next
        case 2
        then show ?thesis using len ij True by (simp add: flagged_at_def)
      next
        case 3
        then have "ff[i := 1, j := 1] ! k = ff ! k" by simp
        moreover have "flagged_at fs files i (Suc j) k = flagged_at fs files i j k"
          using 3 by (auto simp: flagged_at_def less_Suc_eq)
        ultimately show ?thesis using fl[OF that] by simp
      qed
    qed
    have grp: "addDupNode sz (files ! j)
                 (if ff ! i = 0 then Some (addDupNode sz (files ! i) d) else d)
               = group_upto fs files sz i (Suc j)"
    proof (cases "later_twin fs files i j")
      case lt0: True
      with fi d have "ff ! i \<noteq> 0" "d = Some (group_upto fs files sz i j)" by simp_all
      then show ?thesis using True ij
        by (simp add: addDupNode_def group_upto_def klass_Suc)
    next
      case False
      with fi d have z: "ff ! i = 0" "d = None" by simp_all
      from klass_no_twin[OF ij(1) False] have "klass fs files i j = [i]" .
      then show ?thesis using z True ij
        by (simp add: addDupNode_def group_upto_def klass_Suc)
    qed
    show ?thesis using True fc fd len flags grp lt
      by (simp add: base_pair_def inner_ok_def)
  qed
qed

lemma inner_skip_ok:
  assumes ok: "inner_ok fs files sz i j fd" and lead: "\<not> seen fs files i i"
    and ij: "i < j" "j < length files" and fj: "fst fd ! j \<noteq> 0"
  shows "inner_ok fs files sz i (Suc j) fd"
proof -
  from ok ij fj have sj: "seen fs files i j" by (simp add: inner_ok_def flagged_at_def)
  have ne: "cont fs files j \<noteq> cont fs files i"
  proof
    assume "cont fs files j = cont fs files i"
    with sj have "seen fs files i i" by (simp add: seen_def)
    with lead show False by simp
  qed
  have "flagged_at fs files i (Suc j) k = flagged_at fs files i j k" for k
    using ne sj by (auto simp: flagged_at_def later_twin_Suc less_Suc_eq)
  moreover have "later_twin fs files i (Suc j) = later_twin fs files i j"
    using ne by (simp add: later_twin_Suc)
  moreover have "group_upto fs files sz i (Suc j) = group_upto fs files sz i j"
    using ne ij by (simp add: group_upto_def klass_Suc)
  ultimately show ?thesis using ok by (simp add: inner_ok_def)
qed

lemma base_inner_ok:
  "inner_ok fs files sz i j fd \<Longrightarrow> \<not> seen fs files i i \<Longrightarrow> i < j \<Longrightarrow> j \<le> length files \<Longrightarrow>
   inner_ok fs files sz i (length files) (base_inner fs files sz i j fd)"
proof (induction fs files sz i j fd rule: base_inner.induct)
  case (1 fs files sz i j fd)
  show ?case
  proof (cases "j < length files")
    case False
    with "1.prems" have "j = length files" by simp
    moreover have "base_inner fs files sz i j fd = fd"
      using False by (subst base_inner.simps) simp
    ultimately show ?thesis using "1.prems"(1) by simp
  next
    case True
    show ?thesis
    proof (cases "fst fd ! j \<noteq> 0")
      case T2: True
      have "inner_ok fs files sz i (j + 1) fd"
        using inner_skip_ok[OF "1.prems"(1,2,3) True T2] by simp
      from "1.IH"(1)[OF True T2 this "1.prems"(2)] "1.prems"(3) True
      have "inner_ok fs files sz i (length files) (base_inner fs files sz i (j + 1) fd)" by simp
      moreover have "base_inner fs files sz i j fd = base_inner fs files sz i (j + 1) fd"
        using True T2 by (subst base_inner.simps) simp
      ultimately show ?thesis by simp
    next
      case False
      then have fj: "fst fd ! j = 0" by simp
      have "inner_ok fs files sz i (j + 1) (base_pair fs files sz i j fd)"
        using base_pair_ok[OF "1.prems"(1,2,3) True fj] by simp
      from "1.IH"(2)[OF True False this "1.prems"(2)] "1.prems"(3) True
      have "inner_ok fs files sz i (length files)
              (base_inner fs files sz i (j + 1) (base_pair fs files sz i j fd))" by simp
      moreover have "base_inner fs files sz i j fd
                       = base_inner fs files sz i (j + 1) (base_pair fs files sz i j fd)"
        using True fj by (subst base_inner.simps) simp
      ultimately show ?thesis by simp
    qed
  qed
qed

definition outer_ok ::
  "filesys \<Rightarrow> fe list \<Rightarrow> int \<Rightarrow> dupNode list \<Rightarrow> nat \<Rightarrow> int list \<times> dupNode list \<Rightarrow> bool" where
  "outer_ok fs files sz rv0 i fr =
     (length (fst fr) = length files \<and>
      (\<forall>k<length files. (fst fr ! k \<noteq> 0) = (if k < i then twin fs files k else seen fs files i k)) \<and>
      snd fr = groups_upto fs files sz i @ rv0)"

lemma seen_Suc: "seen fs files (Suc i) k \<longleftrightarrow> seen fs files i k \<or> cont fs files i = cont fs files k"
  by (auto simp: seen_def less_Suc_eq)

lemma twin_leader:
  assumes "\<not> seen fs files i i" "i < length files"
  shows "twin fs files i \<longleftrightarrow> later_twin fs files i (length files)"
proof
  assume "twin fs files i"
  then obtain p where p: "p < length files" "p \<noteq> i" "cont fs files p = cont fs files i"
    by (auto simp: twin_def)
  with assms(1) have "\<not> p < i" by (auto simp: seen_def)
  with p have "i < p" by simp
  with p show "later_twin fs files i (length files)"
    unfolding later_twin_def by (intro exI[of _ p]) simp
next
  assume "later_twin fs files i (length files)"
  then show "twin fs files i" by (auto simp: later_twin_def twin_def)
qed

lemma base_outer_ok:
  "outer_ok fs files sz rv0 i fr \<Longrightarrow> i + 1 \<le> length files \<Longrightarrow>
   outer_ok fs files sz rv0 (length files - 1) (base_outer fs files sz i fr)"
proof (induction fs files sz i fr rule: base_outer.induct)
  case (1 fs files sz i fr)
  obtain ff rv where fr: "fr = (ff, rv)" by (cases fr)
  from "1.prems"(1) fr have len: "length ff = length files"
    and fl: "\<And>k. k < length files \<Longrightarrow> (ff ! k \<noteq> 0) = (if k < i then twin fs files k else seen fs files i k)"
    and rv: "rv = groups_upto fs files sz i @ rv0"
    by (simp_all add: outer_ok_def)
  show ?case
  proof (cases "i + 1 < length files")
    case False
    with "1.prems"(2) have "i = length files - 1" by simp
    moreover have "base_outer fs files sz i fr = fr"
      using False by (subst base_outer.simps) simp
    ultimately show ?thesis using "1.prems"(1) by simp
  next
    case True
    then have icnt: "i < length files" by simp
    show ?thesis
    proof (cases "fst fr ! i \<noteq> 0")
      case T2: True
      with fl[OF icnt] fr have si: "seen fs files i i" by simp
      have "outer_ok fs files sz rv0 (i + 1) fr"
        unfolding outer_ok_def
      proof (intro conjI allI impI)
        show "length (fst fr) = length files" using len fr by simp
        show "snd fr = groups_upto fs files sz (i + 1) @ rv0" using rv fr si by simp
        fix k assume k: "k < length files"
        show "(fst fr ! k \<noteq> 0) = (if k < i + 1 then twin fs files k else seen fs files (i + 1) k)"
        proof (cases "k = i")
          case True
          from si obtain p where "p < i" "cont fs files p = cont fs files i"
            by (auto simp: seen_def)
          then have "twin fs files i" using icnt
            unfolding twin_def by (intro exI[of _ p]) simp
          with True T2 show ?thesis by simp
        next
          case False
          have "seen fs files i k" if "cont fs files i = cont fs files k"
            using si that by (simp add: seen_def)
          then have "seen fs files (i + 1) k = seen fs files i k"
            using seen_Suc[of fs files i k] by auto
          with False fl[OF k] fr show ?thesis by (auto simp: less_Suc_eq)
        qed
      qed
      from "1.IH"(1)[OF True T2 this] True
      have "outer_ok fs files sz rv0 (length files - 1) (base_outer fs files sz (i + 1) fr)"
        by simp
      moreover have "base_outer fs files sz i fr = base_outer fs files sz (i + 1) fr"
        using True T2 by (subst base_outer.simps) simp
      ultimately show ?thesis by simp
    next
      case False
      then have fi: "ff ! i = 0" using fr by simp
      with fl[OF icnt] have lead: "\<not> seen fs files i i" by simp
      have nl: "\<not> later_twin fs files i (i + 1)" by (simp add: later_twin_def)
      have start: "inner_ok fs files sz i (i + 1) (ff, None)"
        unfolding inner_ok_def
      proof (intro conjI allI impI)
        show "length (fst (ff, None)) = length files" using len by simp
        show "snd (ff, None :: dupNode option)
                = (if later_twin fs files i (i + 1) then Some (group_upto fs files sz i (i + 1)) else None)"
          using nl by simp
        fix k assume k: "k < length files"
        show "(fst (ff, None) ! k \<noteq> 0) = flagged_at fs files i (i + 1) k"
          using fl[OF k] fi nl by (auto simp: flagged_at_def)
      qed
      obtain ff' d where bi: "base_inner fs files sz i (i + 1) (ff, None) = (ff', d)"
        by (cases "base_inner fs files sz i (i + 1) (ff, None)")
      from base_inner_ok[OF start lead] True bi
      have fin: "inner_ok fs files sz i (length files) (ff', d)" by simp
      then have len': "length ff' = length files"
        and fl': "\<And>k. k < length files \<Longrightarrow> (ff' ! k \<noteq> 0) = flagged_at fs files i (length files) k"
        and d: "d = (if later_twin fs files i (length files)
                     then Some (group_upto fs files sz i (length files)) else None)"
        by (simp_all add: inner_ok_def)
      let ?rv' = "case d of None \<Rightarrow> rv | Some g \<Rightarrow> g # rv"
      have "outer_ok fs files sz rv0 (i + 1) (ff', ?rv')"
        unfolding outer_ok_def
      proof (intro conjI allI impI)
        show "length (fst (ff', ?rv')) = length files" using len' by simp
        show "snd (ff', ?rv') = groups_upto fs files sz (i + 1) @ rv0"
          using d rv lead by simp
        fix k assume k: "k < length files"
        show "(fst (ff', ?rv') ! k \<noteq> 0)
                = (if k < i + 1 then twin fs files k else seen fs files (i + 1) k)"
        proof (cases "k = i")
          case True
          with fl'[OF k] twin_leader[OF lead icnt] show ?thesis by (simp add: flagged_at_def)
        next
          case False
          with fl'[OF k] k show ?thesis
            by (auto simp: flagged_at_def seen_Suc less_Suc_eq)
        qed
      qed
      then have ok': "outer_ok fs files sz rv0 (i + 1)
              (ff', case d of None \<Rightarrow> snd fr | Some g \<Rightarrow> g # snd fr)"
        unfolding fr snd_conv by simp
      have bi': "(ff', d) = base_inner fs files sz i (i + 1) (fst fr, None)"
        using bi fr by simp
      from "1.IH"(2)[OF True False bi' ok']
      have "outer_ok fs files sz rv0 (length files - 1)
              (base_outer fs files sz (i + 1) (ff', ?rv'))"
        using True unfolding fr snd_conv by simp
      moreover have "base_outer fs files sz i fr = base_outer fs files sz (i + 1) (ff', ?rv')"
        using True fi bi unfolding fr
        by (subst base_outer.simps) (simp cong: option.case_cong)
      ultimately show ?thesis by simp
    qed
  qed
qed

text \<open>
  A row is the \<open>leader\<close> of a group when no earlier file has its content and some later
  file has. The groups of a bucket are the groups of its leaders, the last leader first.
\<close>

definition leader :: "filesys \<Rightarrow> fe list \<Rightarrow> nat \<Rightarrow> bool" where
  "leader fs files p = (\<not> seen fs files p p \<and> later_twin fs files p (length files))"

lemma groups_upto_map:
  "groups_upto fs files sz i =
     map (\<lambda>p. group_upto fs files sz p (length files)) (filter (leader fs files) (rev [0..<i]))"
  by (induction i) (simp_all add: leader_def)

lemma in_group_upto:
  "f \<in> set (dfiles (group_upto fs files sz p j)) \<longleftrightarrow>
     (\<exists>k. p \<le> k \<and> k < j \<and> cont fs files k = cont fs files p \<and> f = files ! k)"
  by (auto simp: group_upto_def klass_def)

lemma chkNode_Inr:
  assumes "chkNode fs sz files (rv, eps) = Inr (rv', eps')"
  shows "(files = [] \<and> rv' = rv \<and> eps' = eps @ [(sz, files, [])]) \<or>
         (2 \<le> length files \<and> sz = 0 \<and> rv' = \<lparr>dsize = 0, dfiles = files\<rparr> # rv \<and>
          eps' = eps @ [(sz, files, [])]) \<or>
         (2 \<le> length files \<and> sz \<noteq> 0 \<and> length files * length files \<le> INT_MAX \<and>
          (\<exists>st. outer_loop fs files sz 0 (init_bstate (length files) rv) = Inr st \<and>
                rv' = retval st \<and> eps' = eps @ [(sz, files, trace st)]))"
  using assms by (auto simp: chkNode_def split: if_splits sum.splits)

lemma chkNode_groups:
  assumes "chkNode fs sz files (rv, eps) = Inr (rv', eps')" "sz \<noteq> 0"
  shows "rv' = groups_upto fs files sz (length files - 1) @ rv"
proof -
  from chkNode_Inr[OF assms(1)] assms(2) consider "files = []" "rv' = rv"
    | st where "2 \<le> length files" "length files * length files \<le> INT_MAX"
        "outer_loop fs files sz 0 (init_bstate (length files) rv) = Inr st" "rv' = retval st"
    by auto
  then show ?thesis
  proof cases
    case 1
    then show ?thesis by simp
  next
    case 2
    from bucket_run[OF 2(2,3)] obtain i where
      b: "retval st = snd (base_outer fs files sz 0 (replicate (length files) 0, rv))"
      by blast
    have "outer_ok fs files sz rv 0 (replicate (length files) 0, rv)"
      by (simp add: outer_ok_def seen_def)
    from base_outer_ok[OF this] 2(1)
    have "outer_ok fs files sz rv (length files - 1)
            (base_outer fs files sz 0 (replicate (length files) 0, rv))" by simp
    then show ?thesis using b 2(4) by (simp add: outer_ok_def)
  qed
qed


lemma distinct_nth_submset:
  assumes "distinct xs" "set xs \<subseteq> {..<length fs}"
  shows "mset (map ((!) fs) xs) \<subseteq># mset fs"
proof -
  have "mset xs = mset_set (set xs)" using assms(1) by (simp add: mset_set_set)
  also have "\<dots> \<subseteq># mset_set {..<length fs}" using assms(2) by simp
  also have "\<dots> = mset [0..<length fs]" by (rule mset_set_upto_eq_mset_upto)
  finally have "image_mset ((!) fs) (mset xs) \<subseteq># image_mset ((!) fs) (mset [0..<length fs])"
    by (rule image_mset_subseteq_mono)
  also have "image_mset ((!) fs) (mset [0..<length fs]) = mset (map ((!) fs) [0..<length fs])"
    by simp
  also have "\<dots> = mset fs" by (simp only: map_nth)
  finally show ?thesis by simp
qed

fun group_idx :: "filesys \<Rightarrow> fe list \<Rightarrow> nat \<Rightarrow> nat list" where
  "group_idx fs files 0 = []"
| "group_idx fs files (Suc i) =
     (if leader fs files i then rev (klass fs files i (length files)) else [])
     @ group_idx fs files i"

lemma groups_upto_idx:
  "concat (map dfiles (groups_upto fs files sz i)) = map ((!) files) (group_idx fs files i)"
  by (induction i) (simp_all add: leader_def group_upto_def)

lemma group_idx_props:
  "distinct (group_idx fs files i) \<and>
   (\<forall>k \<in> set (group_idx fs files i). k < length files \<and> seen fs files i k)"
proof (induction i)
  case 0
  show ?case by simp
next
  case (Suc i)
  have old: "seen fs files (Suc i) k" if "seen fs files i k" for k
    using that by (simp add: seen_Suc)
  show ?case
  proof (cases "leader fs files i")
    case False
    with Suc old show ?thesis by auto
  next
    case True
    then have lead: "\<not> seen fs files i i" by (simp add: leader_def)
    have k1: "k < length files \<and> cont fs files k = cont fs files i"
      if "k \<in> set (klass fs files i (length files))" for k
      using that by (auto simp: klass_def)
    have disj: "set (klass fs files i (length files)) \<inter> set (group_idx fs files i) = {}"
    proof (rule ccontr)
      assume "set (klass fs files i (length files)) \<inter> set (group_idx fs files i) \<noteq> {}"
      then obtain k where "k \<in> set (klass fs files i (length files))" "k \<in> set (group_idx fs files i)"
        by blast
      with k1 Suc have "cont fs files k = cont fs files i" "seen fs files i k" by auto
      then have "seen fs files i i" by (simp add: seen_def)
      with lead show False by simp
    qed
    have d: "distinct (klass fs files i (length files))" by (simp add: klass_def)
    have s: "seen fs files (Suc i) k" if "k \<in> set (klass fs files i (length files))" for k
      using k1[OF that] by (auto simp: seen_Suc)
    show ?thesis using True Suc d disj k1 s old by auto
  qed
qed

lemma chkNode_new:
  assumes "chkNode fs sz files (rv, eps) = Inr (rv', eps')"
  shows "\<exists>new. rv' = new @ rv \<and> mset (concat (map dfiles new)) \<subseteq># mset files"
proof (cases "sz = 0")
  case True
  with assms show ?thesis by (auto simp: chkNode_def split: if_splits)
next
  case False
  let ?new = "groups_upto fs files sz (length files - 1)"
  from chkNode_groups[OF assms False] have "rv' = ?new @ rv" .
  moreover have "mset (concat (map dfiles ?new)) \<subseteq># mset files"
    unfolding groups_upto_idx
    using group_idx_props[of fs files "length files - 1"]
    by (intro distinct_nth_submset) auto
  ultimately show ?thesis by blast
qed


text \<open>
  \<open>chunk_reads fi fj pos n\<close> is the trace of \<open>n\<close> rounds of the chunk loop started at offset
  \<open>pos\<close>: in each round one \<^verbatim>\<open>read\<close> on each file, \<^verbatim>\<open>BUFSIZE\<close> bytes further than in the round
  before.
\<close>

fun chunk_reads :: "string \<Rightarrow> string \<Rightarrow> nat \<Rightarrow> nat \<Rightarrow> event list" where
  "chunk_reads fi fj pos 0 = []"
| "chunk_reads fi fj pos (Suc n) = Read fi pos # Read fj pos # chunk_reads fi fj (pos + BUFSIZE) n"

lemma short_chunk_whole:
  assumes "read_chunk fs p pos = read_chunk fs q pos" "length (read_chunk fs p pos) < BUFSIZE"
  shows "drop pos (content fs p) = drop pos (content fs q)"
proof -
  have lp: "length (drop pos (content fs p)) < BUFSIZE"
    using assms(2) by (simp add: read_chunk_def min_def split: if_splits)
  have "length (read_chunk fs q pos) < BUFSIZE" using assms by simp
  then have lq: "length (drop pos (content fs q)) < BUFSIZE"
    by (simp add: read_chunk_def min_def split: if_splits)
  have "read_chunk fs p pos = drop pos (content fs p)" using lp by (simp add: read_chunk_def)
  moreover have "read_chunk fs q pos = drop pos (content fs q)" using lq by (simp add: read_chunk_def)
  ultimately show ?thesis using assms(1) by simp
qed

lemma drop_chunk_eq:
  assumes "read_chunk fs p pos = read_chunk fs q pos"
    "drop (pos + BUFSIZE) (content fs p) = drop (pos + BUFSIZE) (content fs q)"
  shows "drop pos (content fs p) = drop pos (content fs q)"
proof -
  have d: "drop BUFSIZE (drop pos c) = drop (pos + BUFSIZE) c" for c :: string
    by (simp add: add.commute)
  have "drop pos (content fs p) = read_chunk fs p pos @ drop BUFSIZE (drop pos (content fs p))"
    unfolding read_chunk_def by (rule append_take_drop_id[symmetric])
  also have "\<dots> = read_chunk fs q pos @ drop BUFSIZE (drop pos (content fs q))"
    unfolding d using assms by simp
  also have "\<dots> = drop pos (content fs q)"
    unfolding read_chunk_def by (rule append_take_drop_id)
  finally show ?thesis .
qed

lemma cmp_loop_stops:
  "cmp_loop fs files sz i j pos st = Inr st' \<Longrightarrow> idx i (length files) j < length (ar st) \<Longrightarrow>
   drop pos (cont fs files i) \<noteq> drop pos (cont fs files j) \<Longrightarrow>
   \<exists>n. (\<forall>k<n. read_chunk fs (name (files ! i)) (pos + k * BUFSIZE)
                 = read_chunk fs (name (files ! j)) (pos + k * BUFSIZE)) \<and>
       read_chunk fs (name (files ! i)) (pos + n * BUFSIZE)
         \<noteq> read_chunk fs (name (files ! j)) (pos + n * BUFSIZE) \<and>
       trace st' = trace st @ chunk_reads (name (files ! i)) (name (files ! j)) pos (Suc n) \<and>
       ar st' = (ar st)[idx i (length files) j := ar st ! idx i (length files) j + int (n * BUFSIZE)] \<and>
       dn st' = dn st \<and> fflags st' = fflags st \<and> retval st' = retval st"
proof (induction fs files sz i j pos st arbitrary: st' rule: cmp_loop.induct)
  case (1 fs files sz i j pos st)
  let ?fi = "name (files ! i)" and ?fj = "name (files ! j)"
  let ?ci = "read_chunk fs ?fi pos" and ?cj = "read_chunk fs ?fj pos"
  let ?k = "idx i (length files) j"
  let ?tr = "trace st @ [Read ?fi pos, Read ?fj pos]"
  have nofail: "\<not> (read_fails fs ?fi pos \<or> read_fails fs ?fj pos)"
    using "1.prems"(1) by (subst (asm) cmp_loop.simps) (auto split: if_splits)
  have diff: "drop pos (content fs ?fi) \<noteq> drop pos (content fs ?fj)"
    using "1.prems"(3) by (simp add: cont_def)
  show ?case
  proof (cases "?ci \<noteq> ?cj")
    case True
    then have "st' = st\<lparr>trace := ?tr\<rparr>"
      using "1.prems"(1) nofail by (subst (asm) cmp_loop.simps) (auto split: if_splits)
    then show ?thesis using True "1.prems"(2)
      by (intro exI[of _ 0]) simp
  next
    case False
    then have eq: "?ci = ?cj" by simp
    have full: "length ?ci = BUFSIZE"
    proof (rule ccontr)
      assume "length ?ci \<noteq> BUFSIZE"
      then have "length ?ci < BUFSIZE" by (simp add: read_chunk_def)
      from short_chunk_whole[OF eq this] diff show False by simp
    qed
    then have n0: "length ?ci \<noteq> 0" using BUFSIZE_pos by simp
    let ?st2 = "st\<lparr>ar := (ar st)[?k := ar st ! ?k + int (length ?ci)], trace := ?tr\<rparr>"
    have rec: "cmp_loop fs files sz i j (pos + length ?ci) ?st2 = Inr st'"
      using "1.prems"(1) nofail eq n0 by (subst (asm) cmp_loop.simps) (auto split: if_splits)
    have len2: "?k < length (ar ?st2)" using "1.prems"(2) by simp
    have diff2: "drop (pos + length ?ci) (cont fs files i) \<noteq> drop (pos + length ?ci) (cont fs files j)"
      unfolding full cont_def using drop_chunk_eq[OF eq] diff by blast
    from "1.IH"[OF nofail _ _ n0 rec len2 diff2] eq obtain n where
      a: "\<forall>k<n. read_chunk fs ?fi (pos + length ?ci + k * BUFSIZE)
                 = read_chunk fs ?fj (pos + length ?ci + k * BUFSIZE)"
      and b: "read_chunk fs ?fi (pos + length ?ci + n * BUFSIZE)
                \<noteq> read_chunk fs ?fj (pos + length ?ci + n * BUFSIZE)"
      and t: "trace st' = trace ?st2 @ chunk_reads ?fi ?fj (pos + length ?ci) (Suc n)"
      and r: "ar st' = (ar ?st2)[?k := ar ?st2 ! ?k + int (n * BUFSIZE)]"
      and o: "dn st' = dn ?st2" "fflags st' = fflags ?st2" "retval st' = retval ?st2"
      by auto
    have a': "\<forall>k<Suc n. read_chunk fs ?fi (pos + k * BUFSIZE) = read_chunk fs ?fj (pos + k * BUFSIZE)"
    proof (intro allI impI)
      fix k assume k: "k < Suc n"
      show "read_chunk fs ?fi (pos + k * BUFSIZE) = read_chunk fs ?fj (pos + k * BUFSIZE)"
      proof (cases k)
        case 0
        then show ?thesis using eq by simp
      next
        case (Suc k')
        with k a have "read_chunk fs ?fi (pos + length ?ci + k' * BUFSIZE)
                 = read_chunk fs ?fj (pos + length ?ci + k' * BUFSIZE)" by simp
        then show ?thesis unfolding full Suc by (simp add: add.assoc)
      qed
    qed
    have b': "read_chunk fs ?fi (pos + Suc n * BUFSIZE) \<noteq> read_chunk fs ?fj (pos + Suc n * BUFSIZE)"
      using b unfolding full by (simp add: add.assoc)
    have t': "trace st' = trace st @ chunk_reads ?fi ?fj pos (Suc (Suc n))"
      using t unfolding full by simp
    have r': "ar st' = (ar st)[?k := ar st ! ?k + int (Suc n * BUFSIZE)]"
      using r "1.prems"(2) unfolding full by (simp add: add.assoc)
    from a' b' t' r' o show ?thesis
      by (intro exI[of _ "Suc n"]) simp
  qed
qed

lemma group_same_content:
  assumes "g \<in> set (groups_upto fs files sz i)" "x \<in> set (dfiles g)" "y \<in> set (dfiles g)"
  shows "full_compare fs x y"
proof -
  from assms(1) obtain p where g: "g = group_upto fs files sz p (length files)"
    by (auto simp: groups_upto_map)
  from assms(2,3) obtain k k' where "cont fs files k = cont fs files p" "x = files ! k"
    "cont fs files k' = cont fs files p" "y = files ! k'"
    unfolding g in_group_upto by blast
  then show ?thesis by (simp add: full_compare_def cont_def)
qed

lemma chkNode_sound:
  assumes "chkNode fs sz files (rv, eps) = Inr (rv', eps')" "sz \<noteq> 0"
  shows "\<exists>new. rv' = new @ rv \<and>
           (\<forall>g \<in> set new. \<forall>x \<in> set (dfiles g). \<forall>y \<in> set (dfiles g). full_compare fs x y)"
  using chkNode_groups[OF assms] group_same_content by blast

text \<open>
  A group of the run is made of files with identical contents, or it is the group of the
  bucket of size 0.
\<close>

definition group_ok :: "filesys \<Rightarrow> Node \<Rightarrow> dupNode \<Rightarrow> bool" where
  "group_ok fs t g =
     ((\<forall>x \<in> set (dfiles g). \<forall>y \<in> set (dfiles g). full_compare fs x y) \<or>
      (0, dfiles g) \<in> set (buckets t))"

lemma chkForDups_sound:
  "chkForDups fs t (rv, eps) = Inr (rv', eps') \<Longrightarrow>
   \<exists>new. rv' = new @ rv \<and> (\<forall>g \<in> set new. group_ok fs t g)"
proof (induction t arbitrary: rv eps rv' eps')
  case Leaf
  then show ?case by simp
next
  case (Node s c files l r col)
  let ?t = "Node s c files l r col"
  from Node.prems(1) obtain rv1 eps1 rv2 eps2 where
    1: "chkForDups fs l (rv, eps) = Inr (rv1, eps1)"
    and 2: "chkNode fs s files (rv1, eps1) = Inr (rv2, eps2)"
    and 3: "chkForDups fs r (rv2, eps2) = Inr (rv', eps')"
    by (auto split: sum.splits)
  have sub: "group_ok fs ?t g" if "group_ok fs l g \<or> group_ok fs r g" for g
    using that by (auto simp: group_ok_def)
  from Node.IH(1)[OF 1] obtain n1 where
    n1: "rv1 = n1 @ rv" "\<forall>g \<in> set n1. group_ok fs l g" by blast
  have "\<exists>n2. rv2 = n2 @ rv1 \<and> (\<forall>g \<in> set n2. group_ok fs ?t g)"
  proof (cases "s = 0")
    case False
    from chkNode_sound[OF 2 False] show ?thesis by (auto simp: group_ok_def)
  next
    case True
    from chkNode_Inr[OF 2] True have "rv2 = rv1 \<or> rv2 = \<lparr>dsize = 0, dfiles = files\<rparr> # rv1"
      by auto
    then show ?thesis
    proof
      assume "rv2 = rv1"
      then show ?thesis by (intro exI[of _ "[]"]) simp
    next
      assume "rv2 = \<lparr>dsize = 0, dfiles = files\<rparr> # rv1"
      then show ?thesis using True
        by (intro exI[of _ "[\<lparr>dsize = 0, dfiles = files\<rparr>]"]) (simp add: group_ok_def)
    qed
  qed
  then obtain n2 where n2: "rv2 = n2 @ rv1" "\<forall>g \<in> set n2. group_ok fs ?t g" by blast
  from Node.IH(2)[OF 3] obtain n3 where
    n3: "rv' = n3 @ rv2" "\<forall>g \<in> set n3. group_ok fs r g" by blast
  have "rv' = (n3 @ n2 @ n1) @ rv" using n1 n2 n3 by simp
  moreover have "\<forall>g \<in> set (n3 @ n2 @ n1). group_ok fs ?t g"
    using n1(2) n2(2) n3(2) sub by auto
  ultimately show ?case by blast
qed

lemma chkNode_mono:
  assumes "chkNode fs sz files (rv, eps) = Inr (rv', eps')"
  shows "set rv \<subseteq> set rv' \<and> set eps \<subseteq> set eps'"
proof -
  from chkNode_new[OF assms] have "set rv \<subseteq> set rv'" by auto
  moreover from chkNode_Inr[OF assms] have "set eps \<subseteq> set eps'" by auto
  ultimately show ?thesis by simp
qed

lemma chkForDups_mono:
  "chkForDups fs t (rv, eps) = Inr (rv', eps') \<Longrightarrow> set rv \<subseteq> set rv' \<and> set eps \<subseteq> set eps'"
proof (induction t arbitrary: rv eps rv' eps')
  case Leaf
  then show ?case by simp
next
  case (Node s c fl l r col)
  from Node.prems obtain a b a' b' where
    1: "chkForDups fs l (rv, eps) = Inr (a, b)"
    and 2: "chkNode fs s fl (a, b) = Inr (a', b')"
    and 3: "chkForDups fs r (a', b') = Inr (rv', eps')"
    by (auto split: sum.splits)
  from Node.IH(1)[OF 1] chkNode_mono[OF 2] Node.IH(2)[OF 3] show ?case by blast
qed

lemma chkForDups_zero_bucket:
  "chkForDups fs t (rv, eps) = Inr (rv', eps') \<Longrightarrow> (0, files) \<in> set (buckets t) \<Longrightarrow>
   files \<noteq> [] \<Longrightarrow>
   2 \<le> length files \<and> \<lparr>dsize = 0, dfiles = files\<rparr> \<in> set rv' \<and> (0, files, []) \<in> set eps'"
proof (induction t arbitrary: rv eps rv' eps')
  case Leaf
  then show ?case by simp
next
  case (Node s c fl l r col)
  from Node.prems(1) obtain rv1 eps1 rv2 eps2 where
    1: "chkForDups fs l (rv, eps) = Inr (rv1, eps1)"
    and 2: "chkNode fs s fl (rv1, eps1) = Inr (rv2, eps2)"
    and 3: "chkForDups fs r (rv2, eps2) = Inr (rv', eps')"
    by (auto split: sum.splits)
  from Node.prems(2) consider "(0, files) \<in> set (buckets l)" | "s = 0" "fl = files"
    | "(0, files) \<in> set (buckets r)" by auto
  then show ?case
  proof cases
    case 1
    from Node.IH(1)[OF \<open>chkForDups fs l (rv, eps) = Inr (rv1, eps1)\<close> 1 Node.prems(3)]
      chkNode_mono[OF 2] chkForDups_mono[OF 3]
    show ?thesis by blast
  next
    case z: 2
    from chkNode_Inr[OF 2] z Node.prems(3)
    have "2 \<le> length files" "rv2 = \<lparr>dsize = 0, dfiles = files\<rparr> # rv1"
      "eps2 = eps1 @ [(0, files, [])]" by auto
    with chkForDups_mono[OF 3] show ?thesis by auto
  next
    case 3
    from Node.IH(2)[OF \<open>chkForDups fs r (rv2, eps2) = Inr (rv', eps')\<close> 3 Node.prems(3)]
    show ?thesis .
  qed
qed

text \<open>
  C5. Two files of a nonzero-size bucket whose contents differ are never members of the
  same group: not among the groups that the resolution of their bucket adds to the chain,
  and not among the groups of the whole run, unless both are filed in the bucket of size
  0, whose files are grouped without being read. The chunk loop of such a pair, started
  at an offset from which the two contents differ, makes \<open>n + 1\<close> rounds of reads, where
  round \<open>n\<close> is the first one whose two chunks differ (in length or in some byte), and
  stops there: the ledger entry has grown by the \<open>n\<close> whole chunks that matched, and the
  flags, the group under construction and the chain are unchanged.
\<close>

theorem differing_files_never_grouped:
  "(chkNode fs sz files (rv, eps) = Inr (rv', eps') \<and> sz \<noteq> 0 \<and>
    \<not> full_compare fs (files ! i) (files ! j) \<longrightarrow>
      (\<exists>new. rv' = new @ rv \<and>
             (\<forall>g \<in> set new. \<not> (files ! i \<in> set (dfiles g) \<and> files ! j \<in> set (dfiles g))))) \<and>
   (cmp_loop fs files sz i j pos st = Inr st' \<and> idx i (length files) j < length (ar st) \<and>
    drop pos (cont fs files i) \<noteq> drop pos (cont fs files j) \<longrightarrow>
      (\<exists>n. (\<forall>k<n. read_chunk fs (name (files ! i)) (pos + k * BUFSIZE)
                    = read_chunk fs (name (files ! j)) (pos + k * BUFSIZE)) \<and>
           read_chunk fs (name (files ! i)) (pos + n * BUFSIZE)
             \<noteq> read_chunk fs (name (files ! j)) (pos + n * BUFSIZE) \<and>
           trace st' = trace st @ chunk_reads (name (files ! i)) (name (files ! j)) pos (Suc n) \<and>
           ar st' = (ar st)[idx i (length files) j :=
                              ar st ! idx i (length files) j + int (n * BUFSIZE)] \<and>
           dn st' = dn st \<and> fflags st' = fflags st \<and> retval st' = retval st)) \<and>
   (chkForDups fs t (rv0, eps0) = Inr (rv1, eps1) \<and> \<not> full_compare fs x y \<and>
    \<not> (\<exists>fl. (0, fl) \<in> set (buckets t) \<and> x \<in> set fl \<and> y \<in> set fl) \<longrightarrow>
      (\<exists>new. rv1 = new @ rv0 \<and>
             (\<forall>g \<in> set new. \<not> (x \<in> set (dfiles g) \<and> y \<in> set (dfiles g)))))"
proof (intro conjI impI)
  assume h: "chkNode fs sz files (rv, eps) = Inr (rv', eps') \<and> sz \<noteq> 0 \<and>
    \<not> full_compare fs (files ! i) (files ! j)"
  then have "chkNode fs sz files (rv, eps) = Inr (rv', eps')" "sz \<noteq> 0" by simp_all
  from chkNode_sound[OF this] h
  show "\<exists>new. rv' = new @ rv \<and>
             (\<forall>g \<in> set new. \<not> (files ! i \<in> set (dfiles g) \<and> files ! j \<in> set (dfiles g)))"
    by blast
next
  assume h: "cmp_loop fs files sz i j pos st = Inr st' \<and> idx i (length files) j < length (ar st) \<and>
    drop pos (cont fs files i) \<noteq> drop pos (cont fs files j)"
  then have "cmp_loop fs files sz i j pos st = Inr st'" "idx i (length files) j < length (ar st)"
    "drop pos (cont fs files i) \<noteq> drop pos (cont fs files j)" by simp_all
  then show "\<exists>n. (\<forall>k<n. read_chunk fs (name (files ! i)) (pos + k * BUFSIZE)
                    = read_chunk fs (name (files ! j)) (pos + k * BUFSIZE)) \<and>
           read_chunk fs (name (files ! i)) (pos + n * BUFSIZE)
             \<noteq> read_chunk fs (name (files ! j)) (pos + n * BUFSIZE) \<and>
           trace st' = trace st @ chunk_reads (name (files ! i)) (name (files ! j)) pos (Suc n) \<and>
           ar st' = (ar st)[idx i (length files) j :=
                              ar st ! idx i (length files) j + int (n * BUFSIZE)] \<and>
           dn st' = dn st \<and> fflags st' = fflags st \<and> retval st' = retval st"
    by (rule cmp_loop_stops)
next
  assume h: "chkForDups fs t (rv0, eps0) = Inr (rv1, eps1) \<and> \<not> full_compare fs x y \<and>
    \<not> (\<exists>fl. (0, fl) \<in> set (buckets t) \<and> x \<in> set fl \<and> y \<in> set fl)"
  then have "chkForDups fs t (rv0, eps0) = Inr (rv1, eps1)" by simp
  from chkForDups_sound[OF this] obtain new where
    n: "rv1 = new @ rv0" "\<forall>g \<in> set new. group_ok fs t g" by blast
  have "\<not> (x \<in> set (dfiles g) \<and> y \<in> set (dfiles g))" if "g \<in> set new" for g
  proof
    assume m: "x \<in> set (dfiles g) \<and> y \<in> set (dfiles g)"
    from n(2) that have "group_ok fs t g" by blast
    with m h show False unfolding group_ok_def by blast
  qed
  with n(1) show "\<exists>new. rv1 = new @ rv0 \<and>
             (\<forall>g \<in> set new. \<not> (x \<in> set (dfiles g) \<and> y \<in> set (dfiles g)))"
    by blast
qed

text \<open>
  In \<open>fs_skip\<close> the files \<open>p0\<close> and \<open>p1\<close> share their first chunk and differ in the last byte:
  their comparison reads two chunks of each and stops; the only group of the bucket is
  made of \<open>p2\<close> and \<open>p1\<close>. The index below also holds two files of size 0, which form a
  group of their own.
\<close>

definition dirs_skip :: "(call list \<times> int) list" where
  "dirs_skip = [([(''p2'', \<lparr>st_size = 1025, st_dev = 1, st_ino = 3\<rparr>, FTW_F),
                  (''e1'', \<lparr>st_size = 0, st_dev = 1, st_ino = 4\<rparr>, FTW_F),
                  (''p1'', \<lparr>st_size = 1025, st_dev = 1, st_ino = 2\<rparr>, FTW_F),
                  (''e2'', \<lparr>st_size = 0, st_dev = 1, st_ino = 5\<rparr>, FTW_F),
                  (''p0'', \<lparr>st_size = 1025, st_dev = 1, st_ino = 1\<rparr>, FTW_F)], 0)]"

definition bucket0 :: "fe list" where
  "bucket0 = [\<lparr>name = ''e2'', dev = 1, inode = 5\<rparr>, \<lparr>name = ''e1'', dev = 1, inode = 4\<rparr>]"

definition tree_skip :: Node where
  "tree_skip = Node 1025 1 bucket3 (Node 0 1 bucket0 Leaf Leaf 1) Leaf 0"

lemma walk_skip: "run_nftw Leaf dirs_skip = Some tree_skip"
  by (simp add: dirs_skip_def tree_skip_def bucket3_def bucket0_def visit_def insertRoot_def
        insertR.simps newFileNode_def)

lemma chk_skip:
  "chkNode fs_skip 1025 bucket3 (rv, eps) = Inr (retval st_skip @ rv, eps @ [(1025, bucket3, trace st_skip)])"
proof -
  have l: "\<not> length bucket3 < 2" "\<not> INT_MAX < length bucket3"
    by (simp_all add: bucket3_def INT_MAX_def)
  have g: "\<not> INT_MAX < length bucket3 * length bucket3" using guard3 by simp
  have "outer_loop fs_skip bucket3 1025 0 (init_bstate (length bucket3) rv)
          = Inr (st_skip\<lparr>retval := retval st_skip @ rv\<rparr>)"
    unfolding init_bstate_guarded[OF guard3]
    by (simp add: bucket3_def loop_simps fs_skip_def kb_def st_skip_def)
  then show ?thesis using l g unfolding chkNode_def by simp
qed

definition groups_skip :: "dupNode list" where
  "groups_skip = [\<lparr>dsize = 1025, dfiles = [\<lparr>name = ''p2'', dev = 1, inode = 3\<rparr>,
                                             \<lparr>name = ''p1'', dev = 1, inode = 2\<rparr>]\<rparr>,
                  \<lparr>dsize = 0, dfiles = bucket0\<rparr>]"

lemma run_tree_skip:
  "chkForDups fs_skip tree_skip ([], [])
     = Inr (groups_skip, [(0, bucket0, []), (1025, bucket3, trace st_skip)])"
proof -
  have "chkNode fs_skip 0 bucket0 ([], [])
          = Inr ([\<lparr>dsize = 0, dfiles = bucket0\<rparr>], [(0, bucket0, [])])"
    by (simp add: chkNode_def bucket0_def INT_MAX_def)
  then show ?thesis
    by (simp add: tree_skip_def chk_skip groups_skip_def) (simp add: st_skip_def)
qed

definition st_stop :: bstate where
  "st_stop = \<lparr>ar = [0, 1024, 0, 0, 0, 0, 0, 0, 0], fflags = [0, 0, 0], dn = None, retval = [],
              trace = [Read ''p0'' 0, Read ''p1'' 0, Read ''p0'' 1024, Read ''p1'' 1024]\<rparr>"

lemma cmp_stop: "cmp_loop fs_skip bucket3 1025 0 1 0 (init_bstate (length bucket3) []) = Inr st_stop"
  unfolding init_bstate_guarded[OF guard3]
  by (simp add: bucket3_def loop_simps fs_skip_def kb_def st_stop_def)

theorem differing_files_never_grouped_witness:
  "(chkNode fs_skip 1025 bucket3 ([], [])
      = Inr (retval st_skip @ [], [] @ [(1025, bucket3, trace st_skip)]) \<and>
    (1025::int) \<noteq> 0 \<and> \<not> full_compare fs_skip (bucket3 ! 0) (bucket3 ! 1)) \<and>
   (\<exists>new. retval st_skip @ [] = new @ [] \<and>
      (\<forall>g \<in> set new. \<not> (bucket3 ! 0 \<in> set (dfiles g) \<and> bucket3 ! 1 \<in> set (dfiles g)))) \<and>
   (cmp_loop fs_skip bucket3 1025 0 1 0 (init_bstate (length bucket3) []) = Inr st_stop \<and>
    idx 0 (length bucket3) 1 < length (ar (init_bstate (length bucket3) [])) \<and>
    drop 0 (cont fs_skip bucket3 0) \<noteq> drop 0 (cont fs_skip bucket3 1)) \<and>
   (\<exists>n. (\<forall>k<n. read_chunk fs_skip (name (bucket3 ! 0)) (0 + k * BUFSIZE)
                 = read_chunk fs_skip (name (bucket3 ! 1)) (0 + k * BUFSIZE)) \<and>
        read_chunk fs_skip (name (bucket3 ! 0)) (0 + n * BUFSIZE)
          \<noteq> read_chunk fs_skip (name (bucket3 ! 1)) (0 + n * BUFSIZE) \<and>
        trace st_stop = trace (init_bstate (length bucket3) [])
                          @ chunk_reads (name (bucket3 ! 0)) (name (bucket3 ! 1)) 0 (Suc n) \<and>
        ar st_stop = (ar (init_bstate (length bucket3) []))[idx 0 (length bucket3) 1 :=
                        ar (init_bstate (length bucket3) []) ! idx 0 (length bucket3) 1
                          + int (n * BUFSIZE)] \<and>
        dn st_stop = dn (init_bstate (length bucket3) []) \<and>
        fflags st_stop = fflags (init_bstate (length bucket3) []) \<and>
        retval st_stop = retval (init_bstate (length bucket3) [])) \<and>
   (run_nftw Leaf dirs_skip = Some tree_skip \<and>
    chkForDups fs_skip tree_skip ([], [])
      = Inr (groups_skip, [(0, bucket0, []), (1025, bucket3, trace st_skip)]) \<and>
    \<not> (\<exists>fl. (0, fl) \<in> set (buckets tree_skip) \<and> bucket3 ! 0 \<in> set fl \<and> bucket3 ! 1 \<in> set fl)) \<and>
   (\<exists>new. groups_skip = new @ [] \<and>
      (\<forall>g \<in> set new. \<not> (bucket3 ! 0 \<in> set (dfiles g) \<and> bucket3 ! 1 \<in> set (dfiles g))))"
proof -
  have ne: "\<not> full_compare fs_skip (bucket3 ! 0) (bucket3 ! 1)"
    by (simp add: full_compare_def fs_skip_def bucket3_def kb_def)
  have h1: "chkNode fs_skip 1025 bucket3 ([], [])
      = Inr (retval st_skip @ [], [] @ [(1025, bucket3, trace st_skip)]) \<and>
    (1025::int) \<noteq> 0 \<and> \<not> full_compare fs_skip (bucket3 ! 0) (bucket3 ! 1)"
    using chk_skip[of "[]" "[]"] ne by simp
  have h2: "cmp_loop fs_skip bucket3 1025 0 1 0 (init_bstate (length bucket3) []) = Inr st_stop \<and>
    idx 0 (length bucket3) 1 < length (ar (init_bstate (length bucket3) [])) \<and>
    drop 0 (cont fs_skip bucket3 0) \<noteq> drop 0 (cont fs_skip bucket3 1)"
    unfolding init_bstate_guarded[OF guard3]
    by (intro conjI, rule cmp_stop[unfolded init_bstate_guarded[OF guard3]])
       (simp_all add: cont_def fs_skip_def bucket3_def kb_def idx_def int32_def)
  have z: "\<not> (\<exists>fl. (0, fl) \<in> set (buckets tree_skip) \<and> bucket3 ! 0 \<in> set fl \<and> bucket3 ! 1 \<in> set fl)"
    by (simp add: tree_skip_def bucket3_def bucket0_def)
  have h3: "chkForDups fs_skip tree_skip ([], [])
      = Inr (groups_skip, [(0, bucket0, []), (1025, bucket3, trace st_skip)]) \<and>
    \<not> full_compare fs_skip (bucket3 ! 0) (bucket3 ! 1) \<and>
    \<not> (\<exists>fl. (0, fl) \<in> set (buckets tree_skip) \<and> bucket3 ! 0 \<in> set fl \<and> bucket3 ! 1 \<in> set fl)"
    using run_tree_skip ne z by simp
  from differing_files_never_grouped[of fs_skip 1025 bucket3 "[]" "[]" "retval st_skip @ []"
      "[] @ [(1025, bucket3, trace st_skip)]" 0 1 0 "init_bstate (length bucket3) []" st_stop tree_skip
      "[]" "[]" groups_skip "[(0, bucket0, []), (1025, bucket3, trace st_skip)]"
      "bucket3 ! 0" "bucket3 ! 1"]
    h1 h2 h3 walk_skip
  show ?thesis by blast
qed























end
